theory Spec2Isabelle
  imports Complex_Main "HOL-Library.Word" "HOL-Library.List_Lexorder"
begin

unbundle bit_operations_syntax

section \<open>Data model of package sst\<close>

type_synonym byte = "8 word"
type_synonym bytes = "byte list"
type_synonym uint32 = "32 word"
type_synonym uint64 = "64 word"

text \<open>
  An entry handed over by the iterator (\<^verbatim>\<open>common.KV\<close>): a key and a value, both byte
  slices. Go's \<^verbatim>\<open>int\<close> is taken to be 64 bits wide (the comparison of a length with
  \<^verbatim>\<open>math.MaxUint32\<close> does not compile otherwise); lengths and counters of the builder
  are bounded by the memory of the process, so they are modelled by \<open>nat\<close> and \<open>int\<close>
  without wrap-around. Every conversion \<^verbatim>\<open>uint32(n)\<close> is \<open>of_nat n\<close> on \<open>32 word\<close>
  and does wrap.
\<close>

datatype KV = KV (Key: bytes) (Value: bytes)

record SSTable =
  format :: byte
  maxKeyLength :: uint32
  numEntries :: uint32
  numDeletes :: uint32
  indexOffset :: uint32
  creationTime :: uint64
  data :: bytes

text \<open>
  Run-time panics of Go and the error results of the package, as values.
  \<open>KeysNotInOrder\<close> is the explicit \<^verbatim>\<open>panic("keys not in order / contains duplicates")\<close>;
  the others are raised by the Go runtime.
\<close>

datatype panic = KeysNotInOrder | SliceBoundsOutOfRange | IndexOutOfRange | MakeSliceCapOutOfRange

datatype failure = Panic panic | IterError string | SSTableTooBig

text \<open>
  \<^verbatim>\<open>iteration.Iterator\<close> is an interface with \<^verbatim>\<open>IsValid() (bool, error)\<close>,
  \<^verbatim>\<open>Current() KV\<close> and \<^verbatim>\<open>Next() error\<close>. A finite run of such an iterator is one of:
  \<^item> \<open>Exhausted\<close>: \<^verbatim>\<open>IsValid\<close> returns \<^verbatim>\<open>(false, nil)\<close>;
  \<^item> \<open>IsValidFails e\<close>: \<^verbatim>\<open>IsValid\<close> returns the error \<open>e\<close>;
  \<^item> \<open>Entry kv rest\<close>: \<^verbatim>\<open>IsValid\<close> returns \<^verbatim>\<open>(true, nil)\<close>, \<^verbatim>\<open>Current\<close> returns \<open>kv\<close>,
    \<^verbatim>\<open>Next\<close> returns \<^verbatim>\<open>nil\<close> and the iterator goes on as \<open>rest\<close>;
  \<^item> \<open>EntryNextFails kv e\<close>: as before, but \<^verbatim>\<open>Next\<close> returns the error \<open>e\<close>.
\<close>

datatype iterator =
    Exhausted
  | IsValidFails string
  | Entry KV iterator
  | EntryNextFails KV string

text \<open>The entries an iterator presents through \<^verbatim>\<open>Current\<close>, in order.\<close>

fun entries_of :: "iterator \<Rightarrow> KV list" where
  "entries_of Exhausted = []"
| "entries_of (IsValidFails e) = []"
| "entries_of (Entry kv rest) = kv # entries_of rest"
| "entries_of (EntryNextFails kv e) = [kv]"

text \<open>The iterator never reports an error.\<close>

fun error_free :: "iterator \<Rightarrow> bool" where
  "error_free Exhausted = True"
| "error_free (IsValidFails e) = False"
| "error_free (Entry kv rest) = error_free rest"
| "error_free (EntryNextFails kv e) = False"

text \<open>The iterator that presents the entries of a list and then ends.\<close>

fun iter_of :: "KV list \<Rightarrow> iterator" where
  "iter_of [] = Exhausted"
| "iter_of (kv # kvs) = Entry kv (iter_of kvs)"

section \<open>Library functions\<close>

text \<open>
  \<^verbatim>\<open>bytes.Compare\<close> of the Go standard library: lexicographic comparison of two byte
  slices, bytes read as unsigned; the result is \<open>-1\<close>, \<open>0\<close> or \<open>1\<close>.
\<close>

fun bytes_Compare :: "bytes \<Rightarrow> bytes \<Rightarrow> int" where
  "bytes_Compare [] [] = 0"
| "bytes_Compare [] (y # ys) = -1"
| "bytes_Compare (x # xs) [] = 1"
| "bytes_Compare (x # xs) (y # ys) =
     (if x < y then -1 else if y < x then 1 else bytes_Compare xs ys)"

text \<open>
  A slice expression \<^verbatim>\<open>s[lo:hi]\<close>. Go checks \<open>0 \<le> lo \<le> hi \<le> cap(s)\<close>; the model has no
  capacities and checks against the length, which is what every slice expression of
  this package stays within on a table that was built.
\<close>

definition go_slice :: "bytes \<Rightarrow> int \<Rightarrow> int \<Rightarrow> panic + bytes" where
  "go_slice s lo hi =
     (if 0 \<le> lo \<and> lo \<le> hi \<and> hi \<le> int (length s)
      then Inr (take (nat (hi - lo)) (drop (nat lo) s))
      else Inl SliceBoundsOutOfRange)"

text \<open>\<^verbatim>\<open>binary.BigEndian.Uint64\<close>: the first eight bytes, most significant first.\<close>

definition be_uint64 :: "bytes \<Rightarrow> uint64" where
  "be_uint64 b =
     push_bit 56 (ucast (b ! 0)) OR push_bit 48 (ucast (b ! 1)) OR
     push_bit 40 (ucast (b ! 2)) OR push_bit 32 (ucast (b ! 3)) OR
     push_bit 24 (ucast (b ! 4)) OR push_bit 16 (ucast (b ! 5)) OR
     push_bit 8 (ucast (b ! 6)) OR ucast (b ! 7)"

definition BigEndian_Uint64 :: "bytes \<Rightarrow> panic + uint64" where
  "BigEndian_Uint64 b = (if length b < 8 then Inl IndexOutOfRange else Inr (be_uint64 b))"

text \<open>
  Modelled from the spec: package \<^verbatim>\<open>encoding\<close> of this repository is not among the
  sources. The specification calls these the shared little-endian integer
  encode/decode helpers and fixes the widths (4 and 8 bytes, least significant byte
  first). The readers return the value and the offset behind it, as their callers in
  \<^verbatim>\<open>Deserialize\<close> use them.

  What a reader does at an offset where the value does not fit into the buffer is
  stated neither by the specification nor by the sources: it may panic as an index
  expression does, or read through an unchecked pointer and return what lies behind
  the buffer. That behaviour is a parameter \<open>enc\<close> of the readers and of every function
  that calls them; what is proved below is proved for every such behaviour, and the
  examples name the one they take.
\<close>

record encoding =
  ReadUint32_beyond :: "bytes \<Rightarrow> int \<Rightarrow> panic + (uint32 \<times> int)"
  ReadUint64_beyond :: "bytes \<Rightarrow> int \<Rightarrow> panic + (uint64 \<times> int)"

definition AppendUint32ToBufferLE :: "bytes \<Rightarrow> uint32 \<Rightarrow> bytes" where
  "AppendUint32ToBufferLE buffer v =
     buffer @ [ucast v, ucast (drop_bit 8 v), ucast (drop_bit 16 v), ucast (drop_bit 24 v)]"

definition AppendUint64ToBufferLE :: "bytes \<Rightarrow> uint64 \<Rightarrow> bytes" where
  "AppendUint64ToBufferLE buffer v =
     buffer @ [ucast v, ucast (drop_bit 8 v), ucast (drop_bit 16 v), ucast (drop_bit 24 v),
               ucast (drop_bit 32 v), ucast (drop_bit 40 v), ucast (drop_bit 48 v),
               ucast (drop_bit 56 v)]"

definition ReadUint32FromBufferLE ::
  "encoding \<Rightarrow> bytes \<Rightarrow> int \<Rightarrow> panic + (uint32 \<times> int)" where
  "ReadUint32FromBufferLE enc buffer offset =
     (if 0 \<le> offset \<and> offset + 4 \<le> int (length buffer)
      then let i = nat offset in
           Inr (ucast (buffer ! i) OR push_bit 8 (ucast (buffer ! (i + 1))) OR
                push_bit 16 (ucast (buffer ! (i + 2))) OR
                push_bit 24 (ucast (buffer ! (i + 3))), offset + 4)
      else ReadUint32_beyond enc buffer offset)"

definition ReadUint64FromBufferLE ::
  "encoding \<Rightarrow> bytes \<Rightarrow> int \<Rightarrow> panic + (uint64 \<times> int)" where
  "ReadUint64FromBufferLE enc buffer offset =
     (if 0 \<le> offset \<and> offset + 8 \<le> int (length buffer)
      then let i = nat offset in
           Inr (ucast (buffer ! i) OR push_bit 8 (ucast (buffer ! (i + 1))) OR
                push_bit 16 (ucast (buffer ! (i + 2))) OR
                push_bit 24 (ucast (buffer ! (i + 3))) OR
                push_bit 32 (ucast (buffer ! (i + 4))) OR
                push_bit 40 (ucast (buffer ! (i + 5))) OR
                push_bit 48 (ucast (buffer ! (i + 6))) OR
                push_bit 56 (ucast (buffer ! (i + 7))), offset + 8)
      else ReadUint64_beyond enc buffer offset)"

text \<open>
  Two such behaviours, for the examples: readers that panic as an index expression
  does, and readers that take every byte outside the buffer to be 0.
\<close>

definition checked_encoding :: encoding where
  "checked_encoding =
     \<lparr>ReadUint32_beyond = (\<lambda>buffer offset. Inl IndexOutOfRange),
      ReadUint64_beyond = (\<lambda>buffer offset. Inl IndexOutOfRange)\<rparr>"

definition byte_at :: "bytes \<Rightarrow> int \<Rightarrow> byte" where
  "byte_at buffer i = (if 0 \<le> i \<and> i < int (length buffer) then buffer ! nat i else 0)"

definition unchecked_encoding :: encoding where
  "unchecked_encoding =
     \<lparr>ReadUint32_beyond = (\<lambda>buffer offset.
        Inr (ucast (byte_at buffer offset) OR
             push_bit 8 (ucast (byte_at buffer (offset + 1))) OR
             push_bit 16 (ucast (byte_at buffer (offset + 2))) OR
             push_bit 24 (ucast (byte_at buffer (offset + 3))), offset + 4)),
      ReadUint64_beyond = (\<lambda>buffer offset.
        Inr (ucast (byte_at buffer offset) OR
             push_bit 8 (ucast (byte_at buffer (offset + 1))) OR
             push_bit 16 (ucast (byte_at buffer (offset + 2))) OR
             push_bit 24 (ucast (byte_at buffer (offset + 3))) OR
             push_bit 32 (ucast (byte_at buffer (offset + 4))) OR
             push_bit 40 (ucast (byte_at buffer (offset + 5))) OR
             push_bit 48 (ucast (byte_at buffer (offset + 6))) OR
             push_bit 56 (ucast (byte_at buffer (offset + 7))), offset + 8))\<rparr>"

section \<open>BuildSSTable\<close>

definition appendBytesWithLengthPrefix :: "bytes \<Rightarrow> bytes \<Rightarrow> bytes" where
  "appendBytesWithLengthPrefix buff bs =
     AppendUint32ToBufferLE buff (of_nat (length bs)) @ bs"

text \<open>
  The local variables of \<^verbatim>\<open>BuildSSTable\<close> that live across the iterations of its
  first loop. A \<^verbatim>\<open>nil\<close> slice is \<open>None\<close>. (An empty key could be \<^verbatim>\<open>nil\<close> as well, but
  the iteration that meets a key of fewer than eight bytes panics at the version
  extraction, so no later iteration ever tests such a \<^verbatim>\<open>prevKey\<close> against \<^verbatim>\<open>nil\<close>.)
\<close>

record locals =
  l_smallestKey :: "bytes option"
  l_largestKey :: "bytes option"
  l_indexEntries :: "(bytes \<times> uint32) list"
  l_buff :: bytes
  l_maxVersion :: uint64
  l_minVersion :: uint64
  l_maxKeyLength :: nat
  l_numEntries :: nat
  l_numDeletes :: nat
  l_first :: bool
  l_prevKey :: "bytes option"

text \<open>
  The version of a key: \<^verbatim>\<open>math.MaxUint64 - binary.BigEndian.Uint64(kv.Key[len(kv.Key)-8:])\<close>.
  The body of the first loop, from \<^verbatim>\<open>kv := iter.Current()\<close> to the call of \<^verbatim>\<open>Next\<close>;
  the version is the last thing it computes, and a panic there discards what the
  iteration did before.
\<close>

definition version_of :: "bytes \<Rightarrow> panic + uint64" where
  "version_of k =
     (case go_slice k (int (length k) - 8) (int (length k)) of
        Inl p \<Rightarrow> Inl p
      | Inr suffix \<Rightarrow>
          (case BigEndian_Uint64 suffix of
             Inl p \<Rightarrow> Inl p
           | Inr w \<Rightarrow> Inr ((- 1 :: uint64) - w)))"

definition loop_body :: "locals \<Rightarrow> KV \<Rightarrow> failure + locals" where
  "loop_body l kv =
     (if l_prevKey l \<noteq> None \<and> bytes_Compare (the (l_prevKey l)) (Key kv) \<ge> 0
      then Inl (Panic KeysNotInOrder)
      else
        let offset = (of_nat (length (l_buff l)) :: uint32);
            lk = length (Key kv);
            buff' = appendBytesWithLengthPrefix
                      (appendBytesWithLengthPrefix (l_buff l) (Key kv)) (Value kv)
        in (case version_of (Key kv) of
              Inl p \<Rightarrow> Inl (Panic p)
            | Inr version \<Rightarrow>
                Inr \<lparr> l_smallestKey = (if l_first l then Some (Key kv) else l_smallestKey l),
                      l_largestKey = Some (Key kv),
                      l_indexEntries = l_indexEntries l @ [(Key kv, offset)],
                      l_buff = buff',
                      l_maxVersion = (if version > l_maxVersion l then version
                                      else l_maxVersion l),
                      l_minVersion = (if version < l_minVersion l then version
                                      else l_minVersion l),
                      l_maxKeyLength = (if lk > l_maxKeyLength l then lk
                                        else l_maxKeyLength l),
                      l_numEntries = l_numEntries l + 1,
                      l_numDeletes = (if length (Value kv) = 0 then l_numDeletes l + 1
                                      else l_numDeletes l),
                      l_first = False,
                      l_prevKey = Some (Key kv) \<rparr>))"

text \<open>The first loop: \<^verbatim>\<open>IsValid\<close>, the body, \<^verbatim>\<open>Next\<close>, until the iterator ends or fails.\<close>

fun entries_loop :: "locals \<Rightarrow> iterator \<Rightarrow> failure + locals" where
  "entries_loop l Exhausted = Inr l"
| "entries_loop l (IsValidFails e) = Inl (IterError e)"
| "entries_loop l (Entry kv rest) =
     (case loop_body l kv of Inl f \<Rightarrow> Inl f | Inr l' \<Rightarrow> entries_loop l' rest)"
| "entries_loop l (EntryNextFails kv e) =
     (case loop_body l kv of Inl f \<Rightarrow> Inl f | Inr l' \<Rightarrow> Inl (IterError e))"

text \<open>
  The second loop writes one index record per entry: the key, the padding up to
  \<open>maxKeyLength\<close>, the offset. The source extends the buffer within its capacity by
  re-slicing where it can and appends \<^verbatim>\<open>make([]byte, paddingBytes)\<close> otherwise. The
  buffer only ever grows by \<^verbatim>\<open>append\<close>, so the bytes between its length and its
  capacity are the zeros \<^verbatim>\<open>make\<close> and the growth of \<^verbatim>\<open>append\<close> left there: both branches
  add \<open>paddingBytes\<close> zero bytes.
\<close>

fun index_loop :: "nat \<Rightarrow> bytes \<Rightarrow> (bytes \<times> uint32) list \<Rightarrow> bytes" where
  "index_loop maxKeyLen buff [] = buff"
| "index_loop maxKeyLen buff ((key, offset) # entries) =
     (let buff1 = buff @ key;
          paddingBytes = int maxKeyLen - int (length key);
          buff2 = (if paddingBytes > 0 then buff1 @ replicate (nat paddingBytes) 0 else buff1)
      in index_loop maxKeyLen (AppendUint32ToBufferLE buff2 offset) entries)"

text \<open>
  \<^verbatim>\<open>BuildSSTable(format, buffSizeEstimate, entriesEstimate, iter)\<close>. The result of
  \<^verbatim>\<open>time.Now().UTC().UnixMilli()\<close>, converted to \<^verbatim>\<open>uint64\<close>, is the parameter \<open>now\<close>.
  The two estimates are capacities given to \<^verbatim>\<open>make\<close>, which panics on a negative one.
\<close>

definition initial_locals :: "byte \<Rightarrow> locals" where
  "initial_locals fmt =
     \<lparr> l_smallestKey = None, l_largestKey = None, l_indexEntries = [],
       l_buff = [fmt, 0, 0, 0, 0], l_maxVersion = 0, l_minVersion = - 1,
       l_maxKeyLength = 0, l_numEntries = 0, l_numDeletes = 0, l_first = True,
       l_prevKey = None \<rparr>"

definition BuildSSTable ::
  "byte \<Rightarrow> int \<Rightarrow> int \<Rightarrow> uint64 \<Rightarrow> iterator \<Rightarrow>
   failure + (SSTable \<times> bytes option \<times> bytes option \<times> uint64 \<times> uint64)" where
  "BuildSSTable fmt buffSizeEstimate entriesEstimate now iter =
     (if entriesEstimate < 0 \<or> buffSizeEstimate < 0 then Inl (Panic MakeSliceCapOutOfRange)
      else
        case entries_loop (initial_locals fmt) iter of
          Inl f \<Rightarrow> Inl f
        | Inr l \<Rightarrow>
           let indexOffset' = length (l_buff l);
               buff = index_loop (l_maxKeyLength l) (l_buff l) (l_indexEntries l);
               metadataOffset = length buff
           in if metadataOffset > 4294967295 then Inl SSTableTooBig
              else
                let buff' = buff[1 := of_nat metadataOffset,
                                 2 := of_nat (drop_bit 8 metadataOffset),
                                 3 := of_nat (drop_bit 16 metadataOffset),
                                 4 := of_nat (drop_bit 24 metadataOffset)]
                in Inr (\<lparr> format = fmt,
                          maxKeyLength = of_nat (l_maxKeyLength l),
                          numEntries = of_nat (l_numEntries l),
                          numDeletes = of_nat (l_numDeletes l),
                          indexOffset = of_nat indexOffset',
                          creationTime = now,
                          data = buff' \<rparr>,
                        l_smallestKey l, l_largestKey l, l_minVersion l, l_maxVersion l))"

section \<open>Serialize and Deserialize\<close>

definition Serialize :: "SSTable \<Rightarrow> bytes" where
  "Serialize s =
     (let buff = AppendUint32ToBufferLE (data s) (maxKeyLength s);
          buff = AppendUint32ToBufferLE buff (numEntries s);
          buff = AppendUint32ToBufferLE buff (numDeletes s);
          buff = AppendUint32ToBufferLE buff (indexOffset s)
      in AppendUint64ToBufferLE buff (creationTime s))"

text \<open>
  \<^verbatim>\<open>Deserialize\<close> assigns the fields of its receiver one by one and has no error
  result. A panic leaves the receiver with the fields assigned so far: the model
  returns the panic together with that state of the receiver.
\<close>

definition Deserialize ::
  "encoding \<Rightarrow> SSTable \<Rightarrow> bytes \<Rightarrow> int \<Rightarrow> (panic \<times> SSTable) + (SSTable \<times> int)" where
  "Deserialize enc s0 buff offset0 =
     (if \<not> (0 \<le> offset0 \<and> offset0 < int (length buff)) then Inl (IndexOutOfRange, s0)
      else
        let s1 = s0\<lparr>format := buff ! nat offset0\<rparr>;
            offset1 = offset0 + 1
        in (case ReadUint32FromBufferLE enc buff offset1 of
              Inl p \<Rightarrow> Inl (p, s1)
            | Inr (metadataOffset, _) \<Rightarrow>
        let offset2 = uint metadataOffset
        in (case ReadUint32FromBufferLE enc buff offset2 of
              Inl p \<Rightarrow> Inl (p, s1)
            | Inr (v3, offset3) \<Rightarrow>
        let s3 = s1\<lparr>maxKeyLength := v3\<rparr>
        in (case ReadUint32FromBufferLE enc buff offset3 of
              Inl p \<Rightarrow> Inl (p, s3)
            | Inr (v4, offset4) \<Rightarrow>
        let s4 = s3\<lparr>numEntries := v4\<rparr>
        in (case ReadUint32FromBufferLE enc buff offset4 of
              Inl p \<Rightarrow> Inl (p, s4)
            | Inr (v5, offset5) \<Rightarrow>
        let s5 = s4\<lparr>numDeletes := v5\<rparr>
        in (case ReadUint32FromBufferLE enc buff offset5 of
              Inl p \<Rightarrow> Inl (p, s5)
            | Inr (v6, offset6) \<Rightarrow>
        let s6 = s5\<lparr>indexOffset := v6\<rparr>
        in (case ReadUint64FromBufferLE enc buff offset6 of
              Inl p \<Rightarrow> Inl (p, s6)
            | Inr (v7, offset7) \<Rightarrow>
        let s7 = s6\<lparr>creationTime := v7\<rparr>
        in (case go_slice buff 0 (int (length buff) - 24) of
              Inl p \<Rightarrow> Inl (p, s7)
            | Inr d \<Rightarrow> Inr (s7\<lparr>data := d\<rparr>, offset7)))))))))"

section \<open>Accessors\<close>

definition SizeBytes :: "SSTable \<Rightarrow> int" where
  "SizeBytes s = int (length (data s)) + 24"

text \<open>
  \<^verbatim>\<open>DeleteRatio\<close> divides two \<^verbatim>\<open>float64\<close> values. Both conversions from \<^verbatim>\<open>uint32\<close> are
  exact. Division by zero gives no number (\<open>0/0\<close>) or an infinity; otherwise the result
  is the quotient, given here as the exact real number that the \<^verbatim>\<open>float64\<close> result
  is the rounding of.
\<close>

datatype float64 = NaN | PosInf | Finite real

definition DeleteRatio :: "SSTable \<Rightarrow> float64" where
  "DeleteRatio s =
     (if numEntries s = 0 then (if numDeletes s = 0 then NaN else PosInf)
      else Finite (real (unat (numDeletes s)) / real (unat (numEntries s))))"

section \<open>findOffset\<close>

text \<open>
  The binary search of \<^verbatim>\<open>findOffset\<close> over the index records. All its variables are
  of type \<^verbatim>\<open>int\<close>; on a table whose index lies within its buffer none of the products
  and sums leaves the range of 64 bits. \<open>high - low\<close> is positive where it is halved, so
  Go's truncating division and \<open>div\<close> agree.
\<close>

function search_loop :: "SSTable \<Rightarrow> bytes \<Rightarrow> int \<Rightarrow> int \<Rightarrow> panic + int" where
  "search_loop s key low high =
     (if low < high then
        let indexRecordLen = uint (maxKeyLength s) + 4;
            middle = low + (high - low) div 2;
            recordStart = middle * indexRecordLen + uint (indexOffset s)
        in (case go_slice (data s) recordStart (recordStart + uint (maxKeyLength s)) of
              Inl p \<Rightarrow> Inl p
            | Inr midKey \<Rightarrow>
                if bytes_Compare midKey key < 0 then search_loop s key (middle + 1) high
                else search_loop s key low middle)
      else Inr high)"
  by pat_completeness auto
termination
  by (relation "measure (\<lambda>(s, key, low, high). nat (high - low))") auto

declare search_loop.simps [simp del]

definition findOffset :: "encoding \<Rightarrow> SSTable \<Rightarrow> bytes \<Rightarrow> panic + int" where
  "findOffset enc s key =
     (let indexRecordLen = uint (maxKeyLength s) + 4;
          numEntries' = uint (numEntries s);
          indexOffset' = uint (indexOffset s);
          maxKeyLength' = uint (maxKeyLength s);
          outerHighBound = numEntries' - 1
      in (case search_loop s key 0 outerHighBound of
            Inl p \<Rightarrow> Inl p
          | Inr high \<Rightarrow>
              (case (if high = outerHighBound
                     then (case go_slice (data s) (high * indexRecordLen + indexOffset')
                                   (high * indexRecordLen + indexOffset' + maxKeyLength') of
                             Inl p \<Rightarrow> Inl p
                           | Inr highKey \<Rightarrow> Inr (bytes_Compare highKey key < 0))
                     else Inr False) of
                 Inl p \<Rightarrow> Inl p
               | Inr True \<Rightarrow> Inr (- 1)
               | Inr False \<Rightarrow>
                   (let recordStart = high * indexRecordLen + indexOffset';
                        valueStart = recordStart + maxKeyLength'
                    in (case ReadUint32FromBufferLE enc (data s) valueStart of
                          Inl p \<Rightarrow> Inl p
                        | Inr (off, _) \<Rightarrow> Inr (uint off))))))"

section \<open>Derived descriptions of the buffer\<close>

definition le32 :: "uint32 \<Rightarrow> bytes" where
  "le32 v = AppendUint32ToBufferLE [] v"

definition le64 :: "uint64 \<Rightarrow> bytes" where
  "le64 v = AppendUint64ToBufferLE [] v"

definition encode_entry :: "KV \<Rightarrow> bytes" where
  "encode_entry kv =
     le32 (of_nat (length (Key kv))) @ Key kv @ le32 (of_nat (length (Value kv))) @ Value kv"

fun index_entries :: "nat \<Rightarrow> KV list \<Rightarrow> (bytes \<times> uint32) list" where
  "index_entries base [] = []"
| "index_entries base (kv # kvs) =
     (Key kv, of_nat base) # index_entries (base + length (encode_entry kv)) kvs"

fun max_key_length :: "nat \<Rightarrow> KV list \<Rightarrow> nat" where
  "max_key_length m [] = m"
| "max_key_length m (kv # kvs) = max_key_length (max m (length (Key kv))) kvs"

definition index_record :: "nat \<Rightarrow> bytes \<times> uint32 \<Rightarrow> bytes" where
  "index_record m e = fst e @ replicate (m - length (fst e)) 0 @ le32 (snd e)"

definition versions :: "KV list \<Rightarrow> uint64 list" where
  "versions es = map (\<lambda>kv. - 1 - be_uint64 (drop (length (Key kv) - 8) (Key kv))) es"

fun ascending_from :: "bytes option \<Rightarrow> KV list \<Rightarrow> bool" where
  "ascending_from prev [] = True"
| "ascending_from prev (kv # kvs) =
     (\<not> (prev \<noteq> None \<and> bytes_Compare (the prev) (Key kv) \<ge> 0) \<and>
      ascending_from (Some (Key kv)) kvs)"

definition encoded_size :: "KV list \<Rightarrow> nat" where
  "encoded_size es =
     5 + sum_list (map (\<lambda>kv. 4 + length (Key kv) + 4 + length (Value kv)) es) +
     length es * (max_key_length 0 es + 4)"

definition built_data :: "byte \<Rightarrow> KV list \<Rightarrow> bytes" where
  "built_data fmt es =
     fmt # le32 (of_nat (encoded_size es)) @ concat (map encode_entry es) @
     concat (map (index_record (max_key_length 0 es)) (index_entries 5 es))"

definition built_table :: "byte \<Rightarrow> uint64 \<Rightarrow> KV list \<Rightarrow> SSTable" where
  "built_table fmt now es =
     \<lparr> format = fmt,
       maxKeyLength = of_nat (max_key_length 0 es),
       numEntries = of_nat (length es),
       numDeletes = of_nat (length (filter (\<lambda>kv. length (Value kv) = 0) es)),
       indexOffset = of_nat (5 + length (concat (map encode_entry es))),
       creationTime = now,
       data = built_data fmt es \<rparr>"

definition built_result ::
  "byte \<Rightarrow> uint64 \<Rightarrow> KV list \<Rightarrow> SSTable \<times> bytes option \<times> bytes option \<times> uint64 \<times> uint64" where
  "built_result fmt now es =
     (built_table fmt now es,
      (if es = [] then None else Some (Key (hd es))),
      (if es = [] then None else Some (Key (last es))),
      foldl min (- 1) (versions es), foldl max 0 (versions es))"

text \<open>
  A table of three entries: keys \<open>a\<close>, \<open>b\<close> and \<open>cd\<close> followed by the suffixes of the
  versions 5, 3 and 9, and the values \<open>v1\<close>, empty and \<open>v3\<close>.
\<close>

definition example_entries :: "KV list" where
  "example_entries =
     [KV [97, 255, 255, 255, 255, 255, 255, 255, 250] [118, 49],
      KV [98, 255, 255, 255, 255, 255, 255, 255, 252] [],
      KV [99, 100, 255, 255, 255, 255, 255, 255, 255, 246] [118, 51]]"

definition example_table :: SSTable where
  "example_table =
     \<lparr>format = 7, maxKeyLength = 10, numEntries = 3, numDeletes = 1,
      indexOffset = 61, creationTime = 1234,
      data =
        [7, 103, 0, 0, 0,
         9, 0, 0, 0, 97, 255, 255, 255, 255, 255, 255, 255, 250, 2, 0, 0, 0, 118, 49,
         9, 0, 0, 0, 98, 255, 255, 255, 255, 255, 255, 255, 252, 0, 0, 0, 0,
         10, 0, 0, 0, 99, 100, 255, 255, 255, 255, 255, 255, 255, 246, 2, 0, 0, 0, 118, 51,
         97, 255, 255, 255, 255, 255, 255, 255, 250, 0, 5, 0, 0, 0,
         98, 255, 255, 255, 255, 255, 255, 255, 252, 0, 24, 0, 0, 0,
         99, 100, 255, 255, 255, 255, 255, 255, 255, 246, 41, 0, 0, 0]\<rparr>"

text \<open>The zero value \<^verbatim>\<open>&SSTable{}\<close>, a receiver for \<^verbatim>\<open>Deserialize\<close>.\<close>

definition empty_table :: SSTable where
  "empty_table =
     \<lparr>format = 0, maxKeyLength = 0, numEntries = 0, numDeletes = 0,
      indexOffset = 0, creationTime = 0, data = []\<rparr>"

text \<open>A key with the zero bytes that pad it to \<open>m\<close> bytes in its index record.\<close>

definition padded :: "nat \<Rightarrow> bytes \<Rightarrow> bytes" where
  "padded m k = k @ replicate (m - length k) 0"

text \<open>The length-prefixed key \<open>k\<close> stands at offset \<open>off\<close> of the buffer \<open>d\<close>.\<close>

definition stored_key_at :: "encoding \<Rightarrow> bytes \<Rightarrow> int \<Rightarrow> bytes \<Rightarrow> bool" where
  "stored_key_at enc d off k \<longleftrightarrow>
     ReadUint32FromBufferLE enc d off = Inr (of_nat (length k), off + 4) \<and>
     go_slice d (off + 4) (off + 4 + int (length k)) = Inr k"

text \<open>The offset of the \<open>i\<close>-th entry in the buffer.\<close>

definition entry_offset :: "KV list \<Rightarrow> nat \<Rightarrow> nat" where
  "entry_offset es i = 5 + length (concat (map encode_entry (take i es)))"

text \<open>
  A table of two entries with empty values, the second key being the first one
  followed by a zero byte.
\<close>

definition prefix_entries :: "KV list" where
  "prefix_entries = [KV [1, 1, 1, 1, 1, 1, 1, 1] [], KV [1, 1, 1, 1, 1, 1, 1, 1, 0] []]"

definition prefix_table :: SSTable where
  "prefix_table =
     \<lparr>format = 7, maxKeyLength = 9, numEntries = 2, numDeletes = 2,
      indexOffset = 38, creationTime = 1234,
      data =
        [7, 64, 0, 0, 0,
         8, 0, 0, 0, 1, 1, 1, 1, 1, 1, 1, 1, 0, 0, 0, 0,
         9, 0, 0, 0, 1, 1, 1, 1, 1, 1, 1, 1, 0, 0, 0, 0, 0,
         1, 1, 1, 1, 1, 1, 1, 1, 0, 5, 0, 0, 0,
         1, 1, 1, 1, 1, 1, 1, 1, 0, 21, 0, 0, 0]\<rparr>"

section \<open>Byte order\<close>

lemma bytes_Compare_less: "bytes_Compare a b < 0 \<longleftrightarrow> a < b"
  by (induction a b rule: bytes_Compare.induct) auto

lemma bytes_Compare_eq: "bytes_Compare a b = 0 \<longleftrightarrow> a = b"
  by (induction a b rule: bytes_Compare.induct) auto

lemma bytes_Compare_ge: "bytes_Compare a b \<ge> 0 \<longleftrightarrow> b \<le> a"
  using bytes_Compare_less [of a b] by (simp add: not_less [symmetric] del: not_less)

lemma bit_byte0:
  "bit (ucast (ucast (v :: 'a::len word) :: byte) :: 'a word) n \<longleftrightarrow> n < 8 \<and> bit v n"
  by (auto simp: bit_simps dest: bit_imp_le_length)

lemma bit_byte:
  "bit (push_bit m (ucast (ucast (drop_bit m (v :: 'a::len word)) :: byte)) :: 'a word) n
     \<longleftrightarrow> m \<le> n \<and> n < m + 8 \<and> bit v n"
  by (auto simp: bit_simps dest: bit_imp_le_length)

lemma le32_roundtrip:
  "ucast (ucast v :: byte) OR push_bit 8 (ucast (ucast (drop_bit 8 v) :: byte)) OR
   push_bit 16 (ucast (ucast (drop_bit 16 v) :: byte)) OR
   push_bit 24 (ucast (ucast (drop_bit 24 v) :: byte)) = (v :: uint32)"
  apply (rule bit_word_eqI)
  apply (simp only: bit_or_iff bit_byte bit_byte0)
  apply simp
  apply linarith
  done

lemma le64_roundtrip:
  "ucast (ucast v :: byte) OR push_bit 8 (ucast (ucast (drop_bit 8 v) :: byte)) OR
   push_bit 16 (ucast (ucast (drop_bit 16 v) :: byte)) OR
   push_bit 24 (ucast (ucast (drop_bit 24 v) :: byte)) OR
   push_bit 32 (ucast (ucast (drop_bit 32 v) :: byte)) OR
   push_bit 40 (ucast (ucast (drop_bit 40 v) :: byte)) OR
   push_bit 48 (ucast (ucast (drop_bit 48 v) :: byte)) OR
   push_bit 56 (ucast (ucast (drop_bit 56 v) :: byte)) = (v :: uint64)"
  apply (rule bit_word_eqI)
  apply (simp only: bit_or_iff bit_byte bit_byte0)
  apply simp
  apply linarith
  done

lemma Append32_le32: "AppendUint32ToBufferLE xs v = xs @ le32 v"
  by (simp add: AppendUint32ToBufferLE_def le32_def)

lemma Append64_le64: "AppendUint64ToBufferLE xs v = xs @ le64 v"
  by (simp add: AppendUint64ToBufferLE_def le64_def)

lemma length_le32 [simp]: "length (le32 v) = 4"
  by (simp add: le32_def AppendUint32ToBufferLE_def)

lemma length_le64 [simp]: "length (le64 v) = 8"
  by (simp add: le64_def AppendUint64ToBufferLE_def)

lemma Read32_le32:
  "off = int (length xs) \<Longrightarrow>
   ReadUint32FromBufferLE enc (xs @ le32 v @ ys) off = Inr (v, off + 4)"
  by (simp add: ReadUint32FromBufferLE_def le32_def AppendUint32ToBufferLE_def nth_append
      le32_roundtrip)

lemma Read64_le64:
  "off = int (length xs) \<Longrightarrow>
   ReadUint64FromBufferLE enc (xs @ le64 v @ ys) off = Inr (v, off + 8)"
  by (simp add: ReadUint64FromBufferLE_def le64_def AppendUint64ToBufferLE_def nth_append
      le64_roundtrip)

lemma appendBytesWithLengthPrefix_eq:
  "appendBytesWithLengthPrefix buff bs = buff @ le32 (of_nat (length bs)) @ bs"
  by (simp add: appendBytesWithLengthPrefix_def Append32_le32)

lemma version_of_eq:
  "version_of k =
     (if length k < 8 then Inl SliceBoundsOutOfRange
      else Inr (- 1 - be_uint64 (drop (length k - 8) k)))"
  by (auto simp: version_of_def go_slice_def BigEndian_Uint64_def nat_diff_distrib)

section \<open>The body of the first loop\<close>

lemma loop_body_Inl:
  "loop_body l kv = Inl f \<longleftrightarrow>
     (l_prevKey l \<noteq> None \<and> Key kv \<le> the (l_prevKey l) \<and> f = Panic KeysNotInOrder) \<or>
     ((l_prevKey l = None \<or> the (l_prevKey l) < Key kv) \<and> length (Key kv) < 8 \<and>
      f = Panic SliceBoundsOutOfRange)"
  by (auto simp: loop_body_def bytes_Compare_ge version_of_eq Let_def)

lemma loop_body_Inr:
  "loop_body l kv = Inr l' \<longleftrightarrow>
     (l_prevKey l = None \<or> the (l_prevKey l) < Key kv) \<and> 8 \<le> length (Key kv) \<and>
     l' = \<lparr> l_smallestKey = (if l_first l then Some (Key kv) else l_smallestKey l),
            l_largestKey = Some (Key kv),
            l_indexEntries = l_indexEntries l @ [(Key kv, of_nat (length (l_buff l)))],
            l_buff = l_buff l @ encode_entry kv,
            l_maxVersion = max (l_maxVersion l) (- 1 - be_uint64 (drop (length (Key kv) - 8) (Key kv))),
            l_minVersion = min (l_minVersion l) (- 1 - be_uint64 (drop (length (Key kv) - 8) (Key kv))),
            l_maxKeyLength = max (l_maxKeyLength l) (length (Key kv)),
            l_numEntries = l_numEntries l + 1,
            l_numDeletes = l_numDeletes l + (if Value kv = [] then 1 else 0),
            l_first = False,
            l_prevKey = Some (Key kv) \<rparr>"
  by (auto simp: loop_body_def bytes_Compare_ge version_of_eq Let_def encode_entry_def
      appendBytesWithLengthPrefix_eq max_def min_def)


section \<open>The first loop\<close>

lemma entries_loop_error_free:
  "entries_loop l it = Inr l' \<Longrightarrow> error_free it"
  by (induction it arbitrary: l) (auto split: sum.splits)

lemma entries_loop_keys:
  "entries_loop l it = Inr l' \<Longrightarrow> \<forall>kv \<in> set (entries_of it). 8 \<le> length (Key kv)"
  by (induction it arbitrary: l) (auto split: sum.splits simp: loop_body_Inr)

lemma entries_loop_buff:
  "entries_loop l it = Inr l' \<Longrightarrow>
   l_buff l' = l_buff l @ concat (map encode_entry (entries_of it))"
proof (induction it arbitrary: l)
  case (Entry kv rest)
  then obtain l1 where b: "loop_body l kv = Inr l1" and r: "entries_loop l1 rest = Inr l'"
    by (auto split: sum.splits)
  from b have "l_buff l1 = l_buff l @ encode_entry kv" by (simp add: loop_body_Inr)
  with Entry.IH [OF r] show ?case by simp
qed (auto split: sum.splits)

lemma entries_loop_index:
  "entries_loop l it = Inr l' \<Longrightarrow>
   l_indexEntries l' = l_indexEntries l @ index_entries (length (l_buff l)) (entries_of it)"
proof (induction it arbitrary: l)
  case (Entry kv rest)
  then obtain l1 where b: "loop_body l kv = Inr l1" and r: "entries_loop l1 rest = Inr l'"
    by (auto split: sum.splits)
  from b have "l_buff l1 = l_buff l @ encode_entry kv"
    and "l_indexEntries l1 = l_indexEntries l @ [(Key kv, of_nat (length (l_buff l)))]"
    by (simp_all add: loop_body_Inr)
  with Entry.IH [OF r] show ?case by simp
qed (auto split: sum.splits)

lemma entries_loop_counts:
  "entries_loop l it = Inr l' \<Longrightarrow>
   l_numEntries l' = l_numEntries l + length (entries_of it) \<and>
   l_numDeletes l' = l_numDeletes l + length (filter (\<lambda>kv. length (Value kv) = 0) (entries_of it)) \<and>
   l_maxKeyLength l' = max_key_length (l_maxKeyLength l) (entries_of it)"
proof (induction it arbitrary: l)
  case (Entry kv rest)
  then obtain l1 where b: "loop_body l kv = Inr l1" and r: "entries_loop l1 rest = Inr l'"
    by (auto split: sum.splits)
  from b have "l_numEntries l1 = l_numEntries l + 1"
    and "l_numDeletes l1 = l_numDeletes l + (if Value kv = [] then 1 else 0)"
    and "l_maxKeyLength l1 = max (l_maxKeyLength l) (length (Key kv))"
    by (simp_all add: loop_body_Inr)
  with Entry.IH [OF r] show ?case by simp
qed (auto split: sum.splits)

lemma entries_loop_sorted:
  "entries_loop l it = Inr l' \<Longrightarrow>
   sorted_wrt (<) (map Key (entries_of it)) \<and>
   (\<forall>p. l_prevKey l = Some p \<longrightarrow> (\<forall>kv \<in> set (entries_of it). p < Key kv))"
proof (induction it arbitrary: l)
  case (Entry kv rest)
  then obtain l1 where b: "loop_body l kv = Inr l1" and r: "entries_loop l1 rest = Inr l'"
    by (auto split: sum.splits)
  from b have p1: "l_prevKey l1 = Some (Key kv)"
    and p: "l_prevKey l = None \<or> the (l_prevKey l) < Key kv"
    by (simp_all add: loop_body_Inr)
  from Entry.IH [OF r] p1 have s: "sorted_wrt (<) (map Key (entries_of rest))"
    and a: "\<forall>kv' \<in> set (entries_of rest). Key kv < Key kv'" by auto
  from s a p show ?case by (auto intro: less_trans)
qed (auto split: sum.splits)

lemma entries_loop_versions:
  "entries_loop l it = Inr l' \<Longrightarrow>
   l_minVersion l' \<le> l_minVersion l \<and> l_maxVersion l \<le> l_maxVersion l' \<and>
   (\<forall>v \<in> set (versions (entries_of it)). l_minVersion l' \<le> v \<and> v \<le> l_maxVersion l') \<and>
   (l_minVersion l' = l_minVersion l \<or> l_minVersion l' \<in> set (versions (entries_of it))) \<and>
   (l_maxVersion l' = l_maxVersion l \<or> l_maxVersion l' \<in> set (versions (entries_of it)))"
proof (induction it arbitrary: l)
  case (Entry kv rest)
  then obtain l1 where b: "loop_body l kv = Inr l1" and r: "entries_loop l1 rest = Inr l'"
    by (auto split: sum.splits)
  define v where "v = - 1 - be_uint64 (drop (length (Key kv) - 8) (Key kv))"
  from b have m: "l_minVersion l1 = min (l_minVersion l) v" "l_maxVersion l1 = max (l_maxVersion l) v"
    by (simp_all add: loop_body_Inr v_def)
  have vs: "versions (entries_of (Entry kv rest)) = v # versions (entries_of rest)"
    by (simp add: versions_def v_def)
  from Entry.IH [OF r] show ?case unfolding vs m
    by (auto simp: min_def max_def split: if_splits)
qed (auto split: sum.splits simp: versions_def)

lemma index_loop_eq:
  "index_loop m buff idx = buff @ concat (map (index_record m) idx)"
  by (induction idx arbitrary: buff)
     (auto simp: index_record_def Append32_le32 Let_def nat_diff_distrib)


lemma ascending_from_nth:
  "ascending_from prev es \<longleftrightarrow>
     (es \<noteq> [] \<longrightarrow> prev = None \<or> bytes_Compare (the prev) (Key (hd es)) < 0) \<and>
     (\<forall>i. Suc i < length es \<longrightarrow> bytes_Compare (Key (es ! i)) (Key (es ! Suc i)) < 0)"
proof (induction es arbitrary: prev)
  case Nil
  show ?case by simp
next
  case (Cons kv kvs)
  have "(\<forall>i. Suc i < length (kv # kvs) \<longrightarrow>
            bytes_Compare (Key ((kv # kvs) ! i)) (Key ((kv # kvs) ! Suc i)) < 0) \<longleftrightarrow>
        (kvs \<noteq> [] \<longrightarrow> bytes_Compare (Key kv) (Key (hd kvs)) < 0) \<and>
        (\<forall>i. Suc i < length kvs \<longrightarrow> bytes_Compare (Key (kvs ! i)) (Key (kvs ! Suc i)) < 0)"
    (is "?L \<longleftrightarrow> ?R")
  proof
    assume l: ?L
    have "kvs \<noteq> [] \<longrightarrow> bytes_Compare (Key kv) (Key (hd kvs)) < 0"
      using l [rule_format, of 0] by (cases kvs) auto
    moreover have "\<forall>i. Suc i < length kvs \<longrightarrow> bytes_Compare (Key (kvs ! i)) (Key (kvs ! Suc i)) < 0"
      using l [rule_format, of "Suc i" for i] by auto
    ultimately show ?R by blast
  next
    assume r: ?R
    show ?L
    proof (intro allI impI)
      fix i assume "Suc i < length (kv # kvs)"
      then show "bytes_Compare (Key ((kv # kvs) ! i)) (Key ((kv # kvs) ! Suc i)) < 0"
        using r by (cases i; cases kvs) auto
    qed
  qed
  then show ?case using Cons.IH [of "Some (Key kv)"] by (auto simp: not_le)
qed

lemma ascending_from_sorted:
  "ascending_from prev es \<longleftrightarrow>
     sorted_wrt (<) (map Key es) \<and> (\<forall>p. prev = Some p \<longrightarrow> (\<forall>kv \<in> set es. p < Key kv))"
proof (induction es arbitrary: prev)
  case Nil
  show ?case by simp
next
  case (Cons kv kvs)
  show ?case
    unfolding ascending_from.simps Cons.IH bytes_Compare_ge
    by (cases prev) (auto intro: less_trans simp: not_le)
qed

lemma entries_loop_panics:
  "\<not> ascending_from (l_prevKey l) (entries_of it) \<Longrightarrow> \<exists>p. entries_loop l it = Inl (Panic p)"
proof (induction it arbitrary: l)
  case (Entry kv rest)
  show ?case
  proof (cases "loop_body l kv")
    case (Inl f)
    then have "\<exists>p. f = Panic p" by (auto simp: loop_body_Inl)
    with Inl show ?thesis by auto
  next
    case (Inr l1)
    then have "l_prevKey l1 = Some (Key kv)"
      and "l_prevKey l = None \<or> the (l_prevKey l) < Key kv"
      by (simp_all add: loop_body_Inr)
    with Entry.prems have "\<not> ascending_from (l_prevKey l1) (entries_of rest)"
      by (auto simp: bytes_Compare_ge not_le)
    from Entry.IH [OF this] Inr show ?thesis by simp
  qed
next
  case (EntryNextFails kv e)
  then have "loop_body l kv = Inl (Panic KeysNotInOrder)"
    by (auto simp: loop_body_Inl bytes_Compare_ge)
  then show ?case by simp
qed simp_all

lemma entries_loop_keys_not_in_order:
  "\<not> ascending_from (l_prevKey l) (entries_of it) \<Longrightarrow>
   \<forall>kv \<in> set (entries_of it). 8 \<le> length (Key kv) \<Longrightarrow>
   entries_loop l it = Inl (Panic KeysNotInOrder)"
proof (induction it arbitrary: l)
  case (Entry kv rest)
  show ?case
  proof (cases "loop_body l kv")
    case (Inl f)
    with Entry.prems(2) have "f = Panic KeysNotInOrder" by (auto simp: loop_body_Inl)
    with Inl show ?thesis by simp
  next
    case (Inr l1)
    then have "l_prevKey l1 = Some (Key kv)"
      and "l_prevKey l = None \<or> the (l_prevKey l) < Key kv"
      by (simp_all add: loop_body_Inr)
    with Entry.prems have "\<not> ascending_from (l_prevKey l1) (entries_of rest)"
      by (auto simp: bytes_Compare_ge not_le)
    from Entry.IH [OF this] Entry.prems(2) Inr show ?thesis by simp
  qed
next
  case (EntryNextFails kv e)
  then have "loop_body l kv = Inl (Panic KeysNotInOrder)"
    by (auto simp: loop_body_Inl bytes_Compare_ge)
  then show ?case by simp
qed simp_all

lemma entries_loop_no_bounds_panic:
  "\<forall>kv \<in> set (entries_of it). 8 \<le> length (Key kv) \<Longrightarrow>
   entries_loop l it = Inl (Panic p) \<Longrightarrow> p = KeysNotInOrder"
proof (induction it arbitrary: l)
  case (Entry kv rest)
  show ?case
  proof (cases "loop_body l kv")
    case (Inl f)
    with Entry.prems show ?thesis by (auto simp: loop_body_Inl)
  next
    case (Inr l1)
    with Entry.prems Entry.IH [of l1] show ?thesis by simp
  qed
next
  case (EntryNextFails kv e)
  then show ?case by (cases "loop_body l kv") (auto simp: loop_body_Inl)
qed simp_all

lemma entries_loop_succeeds:
  "error_free it \<Longrightarrow> ascending_from (l_prevKey l) (entries_of it) \<Longrightarrow>
   \<forall>kv \<in> set (entries_of it). 8 \<le> length (Key kv) \<Longrightarrow>
   \<exists>l'. entries_loop l it = Inr l'"
proof (induction it arbitrary: l)
  case (Entry kv rest)
  from Entry.prems obtain l1 where b: "loop_body l kv = Inr l1"
    by (auto simp: loop_body_Inr bytes_Compare_ge not_le)
  then have "l_prevKey l1 = Some (Key kv)" by (simp add: loop_body_Inr)
  with Entry.prems Entry.IH [of l1] b show ?case by auto
qed simp_all

lemma BuildSSTable_Inr:
  "BuildSSTable fmt bse ee now it = Inr (t, sk, lk, mn, mx) \<longleftrightarrow>
     0 \<le> ee \<and> 0 \<le> bse \<and>
     (\<exists>l. entries_loop (initial_locals fmt) it = Inr l \<and>
       length (index_loop (l_maxKeyLength l) (l_buff l) (l_indexEntries l)) \<le> 4294967295 \<and>
       t = \<lparr> format = fmt,
             maxKeyLength = of_nat (l_maxKeyLength l),
             numEntries = of_nat (l_numEntries l),
             numDeletes = of_nat (l_numDeletes l),
             indexOffset = of_nat (length (l_buff l)),
             creationTime = now,
             data = (index_loop (l_maxKeyLength l) (l_buff l) (l_indexEntries l))
                      [1 := of_nat (length (index_loop (l_maxKeyLength l) (l_buff l) (l_indexEntries l))),
                       2 := of_nat (drop_bit 8 (length (index_loop (l_maxKeyLength l) (l_buff l) (l_indexEntries l)))),
                       3 := of_nat (drop_bit 16 (length (index_loop (l_maxKeyLength l) (l_buff l) (l_indexEntries l)))),
                       4 := of_nat (drop_bit 24 (length (index_loop (l_maxKeyLength l) (l_buff l) (l_indexEntries l))))] \<rparr> \<and>
       sk = l_smallestKey l \<and> lk = l_largestKey l \<and> mn = l_minVersion l \<and> mx = l_maxVersion l)"
  by (auto simp: BuildSSTable_def Let_def split: sum.splits)

lemma BuildSSTable_Inl:
  "BuildSSTable fmt bse ee now it = Inl f \<longleftrightarrow>
     (if ee < 0 \<or> bse < 0 then f = Panic MakeSliceCapOutOfRange
      else case entries_loop (initial_locals fmt) it of
             Inl f' \<Rightarrow> f = f'
           | Inr l \<Rightarrow> f = SSTableTooBig \<and>
               length (index_loop (l_maxKeyLength l) (l_buff l) (l_indexEntries l)) > 4294967295)"
  by (auto simp: BuildSSTable_def Let_def split: sum.splits)


lemma initial_prevKey: "l_prevKey (initial_locals fmt) = None"
  by (simp add: initial_locals_def)

lemma of_nat_drop_bit_byte:
  "m \<le> 24 \<Longrightarrow> ucast (drop_bit m (of_nat n :: uint32)) = (of_nat (drop_bit m n) :: byte)"
  by (rule bit_word_eqI) (auto simp: bit_simps)

lemma of_nat_byte: "ucast (of_nat n :: uint32) = (of_nat n :: byte)"
  by (rule bit_word_eqI) (auto simp: bit_simps)

lemma length_header: "length [fmt, 0, 0, 0, 0 :: byte] = 5"
  by simp

lemma patch_header:
  "(fmt # a # b # c # d # rest)
     [1 := of_nat n, 2 := of_nat (drop_bit 8 n), 3 := of_nat (drop_bit 16 n),
      4 := of_nat (drop_bit 24 n)] = fmt # le32 (of_nat n) @ rest"
proof -
  have i: "(1::nat) = Suc 0" "(2::nat) = Suc (Suc 0)" "(3::nat) = Suc (Suc (Suc 0))"
    "(4::nat) = Suc (Suc (Suc (Suc 0)))" by simp_all
  show ?thesis
    unfolding i
    by (simp add: le32_def AppendUint32ToBufferLE_def of_nat_drop_bit_byte of_nat_byte)
qed

lemma initial_locals_fields:
  "l_buff (initial_locals fmt) = [fmt, 0, 0, 0, 0]"
  "l_indexEntries (initial_locals fmt) = []"
  "l_maxKeyLength (initial_locals fmt) = 0"
  "l_numEntries (initial_locals fmt) = 0"
  "l_numDeletes (initial_locals fmt) = 0"
  "l_first (initial_locals fmt)"
  "l_smallestKey (initial_locals fmt) = None"
  "l_largestKey (initial_locals fmt) = None"
  "l_minVersion (initial_locals fmt) = - 1"
  "l_maxVersion (initial_locals fmt) = 0"
  by (simp_all add: initial_locals_def)

lemma initial_buff_length: "length (l_buff (initial_locals fmt)) = 5"
  by (simp add: initial_locals_def)

lemma length_encode_entry:
  "length (encode_entry kv) = 4 + length (Key kv) + 4 + length (Value kv)"
  by (simp add: encode_entry_def)

lemma length_entries_region:
  "length (concat (map encode_entry es)) =
     sum_list (map (\<lambda>kv. 4 + length (Key kv) + 4 + length (Value kv)) es)"
  by (induction es) (simp_all add: length_encode_entry)

lemma max_key_length_mono: "m \<le> max_key_length m es"
  by (induction es arbitrary: m) (auto intro: order_trans [OF max.cobounded1])

lemma max_key_length_ge:
  "kv \<in> set es \<Longrightarrow> length (Key kv) \<le> max_key_length m es"
proof (induction es arbitrary: m)
  case (Cons a es)
  show ?case
  proof (cases "kv = a")
    case True
    have "length (Key a) \<le> max m (length (Key a))" by simp
    also have "\<dots> \<le> max_key_length (max m (length (Key a))) es" by (rule max_key_length_mono)
    finally show ?thesis using True by simp
  next
    case False
    with Cons show ?thesis by simp
  qed
qed simp

lemma map_fst_index_entries: "map fst (index_entries b es) = map Key es"
  by (induction es arbitrary: b) simp_all

lemma length_index_entries [simp]: "length (index_entries b es) = length es"
  by (induction es arbitrary: b) simp_all

lemma length_index_record:
  "length (fst e) \<le> m \<Longrightarrow> length (index_record m e) = m + 4"
  by (simp add: index_record_def)

lemma length_index_region_gen:
  "\<forall>e \<in> set idx. length (fst e) \<le> m \<Longrightarrow>
   length (concat (map (index_record m) idx)) = length idx * (m + 4)"
  by (induction idx) (simp_all add: length_index_record)

lemma length_index_region:
  "length (concat (map (index_record (max_key_length 0 es)) (index_entries b es))) =
     length es * (max_key_length 0 es + 4)"
proof -
  have "\<forall>e \<in> set (index_entries b es). length (fst e) \<le> max_key_length 0 es"
  proof
    fix e assume "e \<in> set (index_entries b es)"
    then have "fst e \<in> set (map fst (index_entries b es))" by simp
    then obtain kv where "kv \<in> set es" "fst e = Key kv"
      unfolding map_fst_index_entries by auto
    then show "length (fst e) \<le> max_key_length 0 es"
      using max_key_length_ge by simp
  qed
  from length_index_region_gen [OF this] show ?thesis by simp
qed

lemma length_built_data: "length (built_data fmt es) = encoded_size es"
  by (simp add: built_data_def encoded_size_def length_entries_region length_index_region)

lemma entries_loop_first_last:
  "entries_loop l it = Inr l' \<Longrightarrow>
   l_smallestKey l' = (if l_first l \<and> entries_of it \<noteq> [] then Some (Key (hd (entries_of it)))
                       else l_smallestKey l) \<and>
   l_largestKey l' = (if entries_of it = [] then l_largestKey l
                      else Some (Key (last (entries_of it))))"
proof (induction it arbitrary: l)
  case (Entry kv rest)
  then obtain l1 where b: "loop_body l kv = Inr l1" and r: "entries_loop l1 rest = Inr l'"
    by (auto split: sum.splits)
  from b have "l_smallestKey l1 = (if l_first l then Some (Key kv) else l_smallestKey l)"
    and "l_largestKey l1 = Some (Key kv)" and "\<not> l_first l1"
    by (simp_all add: loop_body_Inr)
  with Entry.IH [OF r] show ?case by simp
qed (auto split: sum.splits)

lemma entries_loop_fold_versions:
  "entries_loop l it = Inr l' \<Longrightarrow>
   l_minVersion l' = foldl min (l_minVersion l) (versions (entries_of it)) \<and>
   l_maxVersion l' = foldl max (l_maxVersion l) (versions (entries_of it))"
proof (induction it arbitrary: l)
  case (Entry kv rest)
  then obtain l1 where b: "loop_body l kv = Inr l1" and r: "entries_loop l1 rest = Inr l'"
    by (auto split: sum.splits)
  from b have "l_minVersion l1 = min (l_minVersion l) (- 1 - be_uint64 (drop (length (Key kv) - 8) (Key kv)))"
    and "l_maxVersion l1 = max (l_maxVersion l) (- 1 - be_uint64 (drop (length (Key kv) - 8) (Key kv)))"
    by (simp_all add: loop_body_Inr)
  with Entry.IH [OF r] show ?case by (simp add: versions_def)
qed (auto split: sum.splits simp: versions_def)

lemma BuildSSTable_Inr_built:
  assumes "BuildSSTable fmt bse ee now it = Inr r"
  shows "r = built_result fmt now (entries_of it) \<and> encoded_size (entries_of it) \<le> 4294967295 \<and>
         error_free it \<and> ascending_from None (entries_of it) \<and>
         (\<forall>kv \<in> set (entries_of it). 8 \<le> length (Key kv)) \<and> 0 \<le> bse \<and> 0 \<le> ee"
proof -
  define es where "es = entries_of it"
  obtain t sk lk mn mx where r: "r = (t, sk, lk, mn, mx)" by (cases r) auto
  from assms [unfolded r BuildSSTable_Inr] obtain l where
    est: "0 \<le> ee" "0 \<le> bse" and
    loop: "entries_loop (initial_locals fmt) it = Inr l" and
    len: "length (index_loop (l_maxKeyLength l) (l_buff l) (l_indexEntries l)) \<le> 4294967295" and
    t: "t = \<lparr> format = fmt,
             maxKeyLength = of_nat (l_maxKeyLength l),
             numEntries = of_nat (l_numEntries l),
             numDeletes = of_nat (l_numDeletes l),
             indexOffset = of_nat (length (l_buff l)),
             creationTime = now,
             data = (index_loop (l_maxKeyLength l) (l_buff l) (l_indexEntries l))
                      [1 := of_nat (length (index_loop (l_maxKeyLength l) (l_buff l) (l_indexEntries l))),
                       2 := of_nat (drop_bit 8 (length (index_loop (l_maxKeyLength l) (l_buff l) (l_indexEntries l)))),
                       3 := of_nat (drop_bit 16 (length (index_loop (l_maxKeyLength l) (l_buff l) (l_indexEntries l)))),
                       4 := of_nat (drop_bit 24 (length (index_loop (l_maxKeyLength l) (l_buff l) (l_indexEntries l))))] \<rparr>" and
    rest: "sk = l_smallestKey l" "lk = l_largestKey l" "mn = l_minVersion l" "mx = l_maxVersion l"
    by blast
  have buff: "l_buff l = [fmt, 0, 0, 0, 0] @ concat (map encode_entry es)"
    using entries_loop_buff [OF loop] by (simp add: initial_locals_fields es_def)
  have idx: "l_indexEntries l = index_entries 5 es"
    using entries_loop_index [OF loop]
    unfolding initial_locals_fields length_header by (simp add: es_def)
  have cnt: "l_numEntries l = length es"
    "l_numDeletes l = length (filter (\<lambda>kv. length (Value kv) = 0) es)"
    "l_maxKeyLength l = max_key_length 0 es"
    using entries_loop_counts [OF loop] by (simp_all add: initial_locals_fields es_def)
  have fl: "sk = (if es = [] then None else Some (Key (hd es)))"
    "lk = (if es = [] then None else Some (Key (last es)))"
    using entries_loop_first_last [OF loop] rest by (simp_all add: initial_locals_fields es_def)
  have vs: "mn = foldl min (- 1) (versions es)" "mx = foldl max 0 (versions es)"
    using entries_loop_fold_versions [OF loop] rest by (simp_all add: initial_locals_fields es_def)
  define final where "final = index_loop (l_maxKeyLength l) (l_buff l) (l_indexEntries l)"
  have final: "final = fmt # 0 # 0 # 0 # 0 # concat (map encode_entry es) @
      concat (map (index_record (max_key_length 0 es)) (index_entries 5 es))"
    by (simp add: final_def index_loop_eq buff idx cnt)
  have lf: "length final = encoded_size es"
    by (simp add: final encoded_size_def length_entries_region length_index_region)
  have d: "final[1 := of_nat (length final), 2 := of_nat (drop_bit 8 (length final)),
                 3 := of_nat (drop_bit 16 (length final)),
                 4 := of_nat (drop_bit 24 (length final))] = built_data fmt es"
    unfolding lf unfolding final patch_header by (simp add: built_data_def)
  have "t = built_table fmt now es"
    unfolding t final_def [symmetric] d by (simp add: built_table_def cnt buff)
  moreover have "encoded_size es \<le> 4294967295" using len lf by (simp add: final_def)
  moreover have "ascending_from None es"
    using entries_loop_sorted [OF loop] by (simp add: ascending_from_sorted es_def)
  ultimately show ?thesis
    using fl vs est entries_loop_error_free [OF loop] entries_loop_keys [OF loop]
    by (simp add: r built_result_def es_def)
qed

lemma BuildSSTable_valid:
  assumes "error_free it" "ascending_from None (entries_of it)"
    "\<forall>kv \<in> set (entries_of it). 8 \<le> length (Key kv)" "0 \<le> bse" "0 \<le> ee"
  shows "BuildSSTable fmt bse ee now it =
           (if encoded_size (entries_of it) > 4294967295 then Inl SSTableTooBig
            else Inr (built_result fmt now (entries_of it)))"
proof -
  from entries_loop_succeeds [OF assms(1), of "initial_locals fmt"] assms(2,3)
  obtain l where loop: "entries_loop (initial_locals fmt) it = Inr l"
    by (auto simp: initial_prevKey)
  define es where "es = entries_of it"
  have "l_buff l = [fmt, 0, 0, 0, 0] @ concat (map encode_entry es)"
    "l_indexEntries l = index_entries 5 es" "l_maxKeyLength l = max_key_length 0 es"
    using entries_loop_buff [OF loop] entries_loop_index [OF loop] entries_loop_counts [OF loop]
    unfolding initial_locals_fields length_header by (simp_all add: es_def)
  then have lf: "length (index_loop (l_maxKeyLength l) (l_buff l) (l_indexEntries l)) = encoded_size es"
    by (simp add: index_loop_eq encoded_size_def length_entries_region length_index_region)
  show ?thesis
  proof (cases "encoded_size es > 4294967295")
    case True
    then show ?thesis using loop lf assms(4,5)
      by (simp add: BuildSSTable_Inl es_def)
  next
    case False
    with loop lf assms(4,5) obtain r where r: "BuildSSTable fmt bse ee now it = Inr r"
      by (cases "BuildSSTable fmt bse ee now it") (auto simp: BuildSSTable_Inl es_def)
    from BuildSSTable_Inr_built [OF r] r False show ?thesis by (simp add: es_def)
  qed
qed


section \<open>The example table\<close>

lemma entries_of_iter_of [simp]: "entries_of (iter_of es) = es"
  by (induction es) simp_all

lemma error_free_iter_of [simp]: "error_free (iter_of es)"
  by (induction es) simp_all

lemma le32_numeral: "le32 (numeral n) =
  [ucast (numeral n :: uint32), ucast (drop_bit 8 (numeral n :: uint32)),
   ucast (drop_bit 16 (numeral n :: uint32)), ucast (drop_bit 24 (numeral n :: uint32))]"
  by (simp add: le32_def AppendUint32ToBufferLE_def)

lemma example_encoded_size: "encoded_size example_entries = 103"
  by (simp add: encoded_size_def example_entries_def)

lemma example_max_key_length: "max_key_length 0 example_entries = 10"
  by (simp add: example_entries_def)

lemma example_entries_region:
  "concat (map encode_entry example_entries) =
     [9, 0, 0, 0, 97, 255, 255, 255, 255, 255, 255, 255, 250, 2, 0, 0, 0, 118, 49,
      9, 0, 0, 0, 98, 255, 255, 255, 255, 255, 255, 255, 252, 0, 0, 0, 0,
      10, 0, 0, 0, 99, 100, 255, 255, 255, 255, 255, 255, 255, 246, 2, 0, 0, 0, 118, 51]"
  by (simp add: example_entries_def encode_entry_def le32_def AppendUint32ToBufferLE_def)

lemma example_index_entries:
  "index_entries 5 example_entries =
     [([97, 255, 255, 255, 255, 255, 255, 255, 250], 5),
      ([98, 255, 255, 255, 255, 255, 255, 255, 252], 24),
      ([99, 100, 255, 255, 255, 255, 255, 255, 255, 246], 41)]"
  by (simp add: example_entries_def length_encode_entry)

lemma example_index_region:
  "concat (map (index_record 10) (index_entries 5 example_entries)) =
     [97, 255, 255, 255, 255, 255, 255, 255, 250, 0, 5, 0, 0, 0,
      98, 255, 255, 255, 255, 255, 255, 255, 252, 0, 24, 0, 0, 0,
      99, 100, 255, 255, 255, 255, 255, 255, 255, 246, 41, 0, 0, 0]"
  unfolding example_index_entries
  by (simp add: index_record_def le32_def AppendUint32ToBufferLE_def)

lemma example_versions: "versions example_entries = [5, 3, 9]"
  by (simp add: versions_def example_entries_def be_uint64_def)

lemma example_built_table: "built_table 7 1234 example_entries = example_table"
  unfolding built_table_def built_data_def example_encoded_size example_max_key_length
    example_index_region example_entries_region
  by (simp add: example_table_def example_entries_def le32_def AppendUint32ToBufferLE_def)

lemma example_build:
  "BuildSSTable 7 0 0 1234 (iter_of example_entries) =
     Inr (example_table, Some [97, 255, 255, 255, 255, 255, 255, 255, 250],
          Some [99, 100, 255, 255, 255, 255, 255, 255, 255, 246], 3, 9)"
proof -
  have "ascending_from None example_entries"
    and "\<forall>kv \<in> set example_entries. 8 \<le> length (Key kv)"
    by (simp_all add: example_entries_def)
  then have "BuildSSTable 7 0 0 1234 (iter_of example_entries) =
      Inr (built_result 7 1234 example_entries)"
    by (simp add: BuildSSTable_valid example_encoded_size)
  moreover have "built_result 7 1234 example_entries =
     (example_table, Some [97, 255, 255, 255, 255, 255, 255, 255, 250],
          Some [99, 100, 255, 255, 255, 255, 255, 255, 255, 246], 3, 9)"
    unfolding built_result_def example_built_table example_versions
    by (simp add: example_entries_def)
  ultimately show ?thesis by simp
qed

section \<open>Sizes of a built table\<close>

lemma length_le_encoded_size: "length es \<le> encoded_size es"
proof -
  have "length es \<le> length es * (max_key_length 0 es + 4)" by simp
  then show ?thesis unfolding encoded_size_def by linarith
qed

lemma entries_region_le_encoded_size:
  "5 + length (concat (map encode_entry es)) \<le> encoded_size es"
  by (simp add: encoded_size_def length_entries_region)

lemma max_key_length_le_encoded_size: "max_key_length 0 es \<le> encoded_size es"
proof (cases es)
  case Nil
  then show ?thesis by simp
next
  case (Cons a list)
  have "max_key_length 0 es + 4 \<le> length es * (max_key_length 0 es + 4)"
    by (simp add: Cons)
  then show ?thesis unfolding encoded_size_def by linarith
qed

lemma unat_of_nat32: "n \<le> 4294967295 \<Longrightarrow> unat (of_nat n :: uint32) = n"
  by (simp add: unat_of_nat)

lemma uint_of_nat32: "n \<le> 4294967295 \<Longrightarrow> uint (of_nat n :: uint32) = int n"
  by (simp add: uint_nat unat_of_nat32)

lemma built_table_fields:
  "format (built_table fmt now es) = fmt"
  "maxKeyLength (built_table fmt now es) = of_nat (max_key_length 0 es)"
  "numEntries (built_table fmt now es) = of_nat (length es)"
  "numDeletes (built_table fmt now es) = of_nat (length (filter (\<lambda>kv. length (Value kv) = 0) es))"
  "indexOffset (built_table fmt now es) = of_nat (5 + length (concat (map encode_entry es)))"
  "creationTime (built_table fmt now es) = now"
  "data (built_table fmt now es) = built_data fmt es"
  by (simp_all add: built_table_def)

lemma built_table_unat:
  assumes "encoded_size es \<le> 4294967295"
  shows "unat (maxKeyLength (built_table fmt now es)) = max_key_length 0 es"
    and "unat (numEntries (built_table fmt now es)) = length es"
    and "unat (numDeletes (built_table fmt now es)) =
           length (filter (\<lambda>kv. length (Value kv) = 0) es)"
    and "unat (indexOffset (built_table fmt now es)) = 5 + length (concat (map encode_entry es))"
proof -
  have f: "length (filter (\<lambda>kv. length (Value kv) = 0) es) \<le> length es" by simp
  note b = assms length_le_encoded_size [of es] max_key_length_le_encoded_size [of es]
    entries_region_le_encoded_size [of es] f
  show "unat (maxKeyLength (built_table fmt now es)) = max_key_length 0 es"
    unfolding built_table_fields using b by (intro unat_of_nat32) linarith
  show "unat (numEntries (built_table fmt now es)) = length es"
    unfolding built_table_fields using b by (intro unat_of_nat32) linarith
  show "unat (numDeletes (built_table fmt now es)) =
           length (filter (\<lambda>kv. length (Value kv) = 0) es)"
    unfolding built_table_fields using b by (intro unat_of_nat32) linarith
  show "unat (indexOffset (built_table fmt now es)) = 5 + length (concat (map encode_entry es))"
    unfolding built_table_fields using b by (intro unat_of_nat32) linarith
qed

lemma example_table_fields:
  "format example_table = 7" "maxKeyLength example_table = 10"
  "numEntries example_table = 3" "numDeletes example_table = 1"
  "indexOffset example_table = 61" "creationTime example_table = 1234"
  by (simp_all add: example_table_def)

lemma BuildSSTable_table:
  assumes "BuildSSTable fmt bse ee now it = Inr (t, sk, lk, mn, mx)"
  shows "t = built_table fmt now (entries_of it)"
    and "encoded_size (entries_of it) \<le> 4294967295"
    and "mn = foldl min (- 1) (versions (entries_of it))"
    and "mx = foldl max 0 (versions (entries_of it))"
  using BuildSSTable_Inr_built [OF assms] by (simp_all add: built_result_def)

section \<open>Serialize and Deserialize\<close>

lemma Serialize_eq:
  "Serialize t = data t @ le32 (maxKeyLength t) @ le32 (numEntries t) @ le32 (numDeletes t) @
     le32 (indexOffset t) @ le64 (creationTime t)"
  by (simp add: Serialize_def Append32_le32 Append64_le64)

lemma length_Serialize: "length (Serialize t) = length (data t) + 24"
  by (simp add: Serialize_eq)

lemma Deserialize_at:
  assumes off: "0 \<le> off" "off < int (length B)"
    and ptr: "ReadUint32FromBufferLE enc B (off + 1) = Inr (p, q)"
    and B: "B = d @ le32 a @ le32 b @ le32 c @ le32 e @ tail"
    and p: "uint p = int (length d)"
  shows "Deserialize enc s0 B off =
     (case ReadUint64FromBufferLE enc B (int (length d) + 16) of
        Inl x \<Rightarrow> Inl (x, s0\<lparr>format := B ! nat off, maxKeyLength := a, numEntries := b,
                            numDeletes := c, indexOffset := e\<rparr>)
      | Inr (v, o7) \<Rightarrow>
          (case go_slice B 0 (int (length B) - 24) of
             Inl x \<Rightarrow> Inl (x, s0\<lparr>format := B ! nat off, maxKeyLength := a, numEntries := b,
                                 numDeletes := c, indexOffset := e, creationTime := v\<rparr>)
           | Inr dd \<Rightarrow> Inr (s0\<lparr>format := B ! nat off, maxKeyLength := a, numEntries := b,
                               numDeletes := c, indexOffset := e, creationTime := v,
                               data := dd\<rparr>, o7)))"
proof -
  have r2: "ReadUint32FromBufferLE enc B (int (length d)) = Inr (a, int (length d) + 4)"
    unfolding B by (rule Read32_le32) simp
  have "ReadUint32FromBufferLE enc ((d @ le32 a) @ le32 b @ le32 c @ le32 e @ tail)
          (int (length d) + 4) = Inr (b, int (length d) + 4 + 4)"
    by (rule Read32_le32) simp
  then have r3: "ReadUint32FromBufferLE enc B (int (length d) + 4) = Inr (b, int (length d) + 8)"
    by (simp add: B)
  have "ReadUint32FromBufferLE enc ((d @ le32 a @ le32 b) @ le32 c @ le32 e @ tail)
          (int (length d) + 8) = Inr (c, int (length d) + 8 + 4)"
    by (rule Read32_le32) simp
  then have r4: "ReadUint32FromBufferLE enc B (int (length d) + 8) = Inr (c, int (length d) + 12)"
    by (simp add: B)
  have "ReadUint32FromBufferLE enc ((d @ le32 a @ le32 b @ le32 c) @ le32 e @ tail)
          (int (length d) + 12) = Inr (e, int (length d) + 12 + 4)"
    by (rule Read32_le32) simp
  then have r5: "ReadUint32FromBufferLE enc B (int (length d) + 12) = Inr (e, int (length d) + 16)"
    by (simp add: B)
  show ?thesis
    unfolding Deserialize_def using off
    by (simp add: ptr p r2 r3 r4 r5 Let_def split: sum.splits prod.splits)
qed

lemma built_pointer:
  "ReadUint32FromBufferLE enc (xs @ built_data fmt es @ ys) (int (length xs) + 1) =
     Inr (of_nat (encoded_size es), int (length xs) + 1 + 4)"
proof -
  have "ReadUint32FromBufferLE enc ((xs @ [fmt]) @ le32 (of_nat (encoded_size es)) @
          (concat (map encode_entry es) @
           concat (map (index_record (max_key_length 0 es)) (index_entries 5 es)) @ ys))
          (int (length xs) + 1) = Inr (of_nat (encoded_size es), int (length xs) + 1 + 4)"
    by (rule Read32_le32) simp
  then show ?thesis by (simp add: built_data_def)
qed

lemma built_data_nth0: "(built_data fmt es @ ys) ! 0 = fmt"
  by (simp add: built_data_def)

lemma Deserialize_built:
  assumes n: "encoded_size es \<le> 4294967295"
  shows "Deserialize enc s0 (Serialize (built_table fmt now es)) 0 =
           Inr (built_table fmt now es, int (length (Serialize (built_table fmt now es))))"
proof -
  define t where "t = built_table fmt now es"
  define B where "B = Serialize t"
  have d: "data t = built_data fmt es" by (simp add: t_def built_table_fields)
  have ld: "length (data t) = encoded_size es" by (simp add: d length_built_data)
  have B: "B = data t @ le32 (maxKeyLength t) @ le32 (numEntries t) @ le32 (numDeletes t) @
      le32 (indexOffset t) @ le64 (creationTime t)"
    by (simp add: B_def Serialize_eq)
  have lB: "length B = encoded_size es + 24" by (simp add: B ld)
  have off: "(0::int) \<le> 0" "0 < int (length B)" by (simp_all add: lB)
  have "ReadUint32FromBufferLE enc ([] @ built_data fmt es @ (le32 (maxKeyLength t) @
      le32 (numEntries t) @ le32 (numDeletes t) @ le32 (indexOffset t) @ le64 (creationTime t)))
      (int (length ([] :: bytes)) + 1) =
      Inr (of_nat (encoded_size es), int (length ([] :: bytes)) + 1 + 4)"
    by (rule built_pointer)
  then have ptr: "ReadUint32FromBufferLE enc B (0 + 1) = Inr (of_nat (encoded_size es), 5)"
    by (simp add: B d)
  have p: "uint (of_nat (encoded_size es) :: uint32) = int (length (data t))"
    by (simp add: uint_of_nat32 [OF n] ld)
  have "ReadUint64FromBufferLE enc ((data t @ le32 (maxKeyLength t) @ le32 (numEntries t) @
      le32 (numDeletes t) @ le32 (indexOffset t)) @ le64 (creationTime t) @ [])
      (int (length (data t)) + 16) = Inr (creationTime t, int (length (data t)) + 16 + 8)"
    by (rule Read64_le64) simp
  then have r6: "ReadUint64FromBufferLE enc B (int (length (data t)) + 16) =
      Inr (creationTime t, int (length B))"
    by (simp add: B)
  have sl: "go_slice B 0 (int (length B) - 24) = Inr (data t)"
    by (simp add: go_slice_def B)
  have f: "B ! nat 0 = format t"
    by (simp add: B d built_data_def t_def built_table_fields)
  have "Deserialize enc s0 B 0 = Inr (s0\<lparr>format := format t, maxKeyLength := maxKeyLength t,
      numEntries := numEntries t, numDeletes := numDeletes t, indexOffset := indexOffset t,
      creationTime := creationTime t, data := data t\<rparr>, int (length B))"
    unfolding Deserialize_at [OF off ptr B p] r6 sl f by simp
  moreover have "s0\<lparr>format := format t, maxKeyLength := maxKeyLength t,
      numEntries := numEntries t, numDeletes := numDeletes t, indexOffset := indexOffset t,
      creationTime := creationTime t, data := data t\<rparr> = t"
    by (cases s0; cases t) simp
  ultimately show ?thesis by (simp add: B_def t_def)
qed

lemma Deserialize_footer:
  assumes n: "encoded_size es \<le> 4294967295"
  shows "Deserialize enc s0 (built_data fmt es @ le32 a @ le32 b @ le32 c @ le32 e @ le64 v) 0 =
           Inr (\<lparr>format = fmt, maxKeyLength = a, numEntries = b, numDeletes = c,
                 indexOffset = e, creationTime = v, data = built_data fmt es\<rparr>,
                int (encoded_size es) + 24)"
proof -
  define d where "d = built_data fmt es"
  define B where "B = d @ le32 a @ le32 b @ le32 c @ le32 e @ le64 v"
  have ld: "length d = encoded_size es" by (simp add: d_def length_built_data)
  have B: "B = d @ le32 a @ le32 b @ le32 c @ le32 e @ le64 v" by (simp add: B_def)
  have lB: "length B = encoded_size es + 24" by (simp add: B ld)
  have off: "(0::int) \<le> 0" "0 < int (length B)" by (simp_all add: lB)
  have "ReadUint32FromBufferLE enc ([] @ built_data fmt es @ (le32 a @ le32 b @ le32 c @
      le32 e @ le64 v)) (int (length ([] :: bytes)) + 1) =
      Inr (of_nat (encoded_size es), int (length ([] :: bytes)) + 1 + 4)"
    by (rule built_pointer)
  then have ptr: "ReadUint32FromBufferLE enc B (0 + 1) = Inr (of_nat (encoded_size es), 5)"
    by (simp add: B d_def)
  have p: "uint (of_nat (encoded_size es) :: uint32) = int (length d)"
    by (simp add: uint_of_nat32 [OF n] ld)
  have "ReadUint64FromBufferLE enc ((d @ le32 a @ le32 b @ le32 c @ le32 e) @ le64 v @ [])
      (int (length d) + 16) = Inr (v, int (length d) + 16 + 8)"
    by (rule Read64_le64) simp
  then have r6: "ReadUint64FromBufferLE enc B (int (length d) + 16) = Inr (v, int (length B))"
    by (simp add: B)
  have sl: "go_slice B 0 (int (length B) - 24) = Inr d"
    by (simp add: go_slice_def B)
  have f: "B ! nat 0 = fmt"
    by (simp add: B d_def built_data_def)
  have "Deserialize enc s0 B 0 = Inr (s0\<lparr>format := fmt, maxKeyLength := a,
      numEntries := b, numDeletes := c, indexOffset := e,
      creationTime := v, data := d\<rparr>, int (length B))"
    unfolding Deserialize_at [OF off ptr B p] r6 sl f by simp
  moreover have "s0\<lparr>format := fmt, maxKeyLength := a, numEntries := b, numDeletes := c,
      indexOffset := e, creationTime := v, data := d\<rparr> =
      \<lparr>format = fmt, maxKeyLength = a, numEntries = b, numDeletes = c,
       indexOffset = e, creationTime = v, data = d\<rparr>"
    by (cases s0) simp
  ultimately show ?thesis by (simp add: B_def d_def length_built_data)
qed

lemma Deserialize_truncated:
  assumes n: "encoded_size es \<le> 4294967295"
  shows "Deserialize enc s0 (butlast (Serialize (built_table fmt now es))) 0 =
           (case ReadUint64_beyond enc (butlast (Serialize (built_table fmt now es)))
                   (int (encoded_size es) + 16) of
              Inl x \<Rightarrow>
                Inl (x, s0\<lparr>format := fmt,
                          maxKeyLength := maxKeyLength (built_table fmt now es),
                          numEntries := numEntries (built_table fmt now es),
                          numDeletes := numDeletes (built_table fmt now es),
                          indexOffset := indexOffset (built_table fmt now es)\<rparr>)
            | Inr (v, next) \<Rightarrow>
                Inr ((built_table fmt now es)\<lparr>creationTime := v,
                        data := butlast (built_data fmt es)\<rparr>, next))"
proof -
  define t where "t = built_table fmt now es"
  define B where "B = butlast (Serialize t)"
  have d: "data t = built_data fmt es" by (simp add: t_def built_table_fields)
  have ld: "length (data t) = encoded_size es" by (simp add: d length_built_data)
  have ne: "le64 (creationTime t) \<noteq> []" by (simp add: le64_def AppendUint64ToBufferLE_def)
  have B: "B = data t @ le32 (maxKeyLength t) @ le32 (numEntries t) @ le32 (numDeletes t) @
      le32 (indexOffset t) @ butlast (le64 (creationTime t))"
    by (simp add: B_def Serialize_eq butlast_append ne)
  have lB: "length B = encoded_size es + 23" by (simp add: B ld)
  have off: "(0::int) \<le> 0" "0 < int (length B)" by (simp_all add: lB)
  have "ReadUint32FromBufferLE enc ([] @ built_data fmt es @ (le32 (maxKeyLength t) @
      le32 (numEntries t) @ le32 (numDeletes t) @ le32 (indexOffset t) @
      butlast (le64 (creationTime t))))
      (int (length ([] :: bytes)) + 1) =
      Inr (of_nat (encoded_size es), int (length ([] :: bytes)) + 1 + 4)"
    by (rule built_pointer)
  then have ptr: "ReadUint32FromBufferLE enc B (0 + 1) = Inr (of_nat (encoded_size es), 5)"
    by (simp add: B d)
  have p: "uint (of_nat (encoded_size es) :: uint32) = int (length (data t))"
    by (simp add: uint_of_nat32 [OF n] ld)
  have r6: "ReadUint64FromBufferLE enc B (int (length (data t)) + 16) =
      ReadUint64_beyond enc B (int (encoded_size es) + 16)"
    by (simp add: ReadUint64FromBufferLE_def lB ld)
  have pos: "0 < encoded_size es" by (simp add: encoded_size_def)
  have "take (encoded_size es - 1) B = take (encoded_size es - 1) (data t)"
    by (simp add: B ld)
  also have "\<dots> = butlast (data t)" by (simp add: butlast_conv_take ld)
  finally have tk: "take (encoded_size es - 1) B = butlast (built_data fmt es)" by (simp add: d)
  have "go_slice B 0 (int (length B) - 24) = Inr (take (nat (int (encoded_size es) - 1)) B)"
    using pos by (simp add: go_slice_def lB)
  moreover have "nat (int (encoded_size es) - 1) = encoded_size es - 1" by simp
  ultimately have sl: "go_slice B 0 (int (length B) - 24) = Inr (butlast (built_data fmt es))"
    by (simp only: tk)
  have f: "B ! nat 0 = fmt"
    by (simp add: B d built_data_def)
  have rec: "s0\<lparr>format := fmt, maxKeyLength := maxKeyLength t, numEntries := numEntries t,
      numDeletes := numDeletes t, indexOffset := indexOffset t, creationTime := v,
      data := dd\<rparr> = t\<lparr>creationTime := v, data := dd\<rparr>" for v dd
    by (cases s0) (simp add: t_def built_table_def)
  show ?thesis
    unfolding t_def [symmetric] B_def [symmetric]
    unfolding Deserialize_at [OF off ptr B p] r6 sl f
    by (simp add: rec split: sum.split prod.split)
qed

lemma example_data: "data example_table = built_data 7 example_entries"
  unfolding example_built_table [symmetric] by (simp add: built_table_fields)

lemma example_data_length: "length (data example_table) = 103"
  by (simp add: example_data length_built_data example_encoded_size)

lemma example_Serialize_length: "length (Serialize example_table) = 127"
  by (simp add: length_Serialize example_data_length)

lemma index_region_size:
  assumes n: "encoded_size es \<le> 4294967295"
  shows "encoded_size es =
           unat (indexOffset (built_table fmt now es)) +
           unat (numEntries (built_table fmt now es)) *
             (unat (maxKeyLength (built_table fmt now es)) + 4)"
  unfolding built_table_unat [OF n]
  by (simp add: encoded_size_def length_entries_region)

lemma pointer_eq_indexOffset:
  assumes n: "encoded_size es \<le> 4294967295"
  shows "(of_nat (encoded_size es) :: uint32) = indexOffset (built_table fmt now es) \<longleftrightarrow> es = []"
proof -
  have "(of_nat (encoded_size es) :: uint32) = indexOffset (built_table fmt now es) \<longleftrightarrow>
        unat (of_nat (encoded_size es) :: uint32) = unat (indexOffset (built_table fmt now es))"
    by (simp only: word_unat_eq_iff)
  also have "\<dots> \<longleftrightarrow> encoded_size es = 5 + length (concat (map encode_entry es))"
    by (simp only: unat_of_nat32 [OF n] built_table_unat [OF n])
  also have "\<dots> \<longleftrightarrow> es = []"
    by (simp add: encoded_size_def length_entries_region)
  finally show ?thesis .
qed

lemma example_truncated:
  "butlast (Serialize example_table) =
     data example_table @
     [10, 0, 0, 0, 3, 0, 0, 0, 1, 0, 0, 0, 61, 0, 0, 0, 210, 4, 0, 0, 0, 0, 0]"
  by (simp add: Serialize_eq example_table_fields le32_def le64_def AppendUint32ToBufferLE_def
      AppendUint64ToBufferLE_def drop_bit_eq_div butlast_append)

lemma example_truncated_read:
  "ReadUint64_beyond unchecked_encoding (butlast (Serialize example_table)) 119 =
     Inr (1234, 127)"
  unfolding example_truncated
  by (simp add: unchecked_encoding_def byte_at_def nth_append example_data_length)

lemma example_creationTime: "example_table\<lparr>creationTime := 1234\<rparr> = example_table"
  by (simp add: example_table_def)

lemma example_pointer:
  "ReadUint32FromBufferLE enc (Serialize example_table) 1 = Inr (103, 5)"
proof -
  have "ReadUint32FromBufferLE enc ([] @ built_data 7 example_entries @
      (le32 (maxKeyLength example_table) @ le32 (numEntries example_table) @
       le32 (numDeletes example_table) @ le32 (indexOffset example_table) @
       le64 (creationTime example_table))) (int (length ([] :: bytes)) + 1) =
      Inr (of_nat (encoded_size example_entries), int (length ([] :: bytes)) + 1 + 4)"
    by (rule built_pointer)
  then show ?thesis
    by (simp add: Serialize_eq example_data example_encoded_size)
qed

lemma go_slice_prefix: "n \<le> length s \<Longrightarrow> go_slice s 0 (int n) = Inr (take n s)"
  by (simp add: go_slice_def)

lemma Deserialize_second_copy:
  assumes n: "encoded_size es \<le> 4294967295"
  shows "Deserialize enc s0 (Serialize (built_table fmt now es) @ Serialize (built_table fmt now es))
           (int (length (Serialize (built_table fmt now es)))) =
         Inr ((built_table fmt now es)
                \<lparr>data := Serialize (built_table fmt now es) @ data (built_table fmt now es)\<rparr>,
              int (length (Serialize (built_table fmt now es))))"
proof -
  define t where "t = built_table fmt now es"
  define S where "S = Serialize t"
  define B where "B = S @ S"
  have d: "data t = built_data fmt es" by (simp add: t_def built_table_fields)
  have ld: "length (data t) = encoded_size es" by (simp add: d length_built_data)
  have S: "S = data t @ le32 (maxKeyLength t) @ le32 (numEntries t) @ le32 (numDeletes t) @
      le32 (indexOffset t) @ le64 (creationTime t)"
    by (simp add: S_def Serialize_eq)
  have lS: "length S = encoded_size es + 24" by (simp add: S ld)
  have B: "B = data t @ le32 (maxKeyLength t) @ le32 (numEntries t) @ le32 (numDeletes t) @
      le32 (indexOffset t) @ (le64 (creationTime t) @ S)"
    unfolding B_def by (subst (1) S) simp
  have off: "0 \<le> int (length S)" "int (length S) < int (length B)"
    by (simp_all add: B_def lS)
  have "ReadUint32FromBufferLE enc (S @ built_data fmt es @ (le32 (maxKeyLength t) @
      le32 (numEntries t) @ le32 (numDeletes t) @ le32 (indexOffset t) @ le64 (creationTime t)))
      (int (length S) + 1) = Inr (of_nat (encoded_size es), int (length S) + 1 + 4)"
    by (rule built_pointer)
  moreover have "S @ built_data fmt es @ (le32 (maxKeyLength t) @
      le32 (numEntries t) @ le32 (numDeletes t) @ le32 (indexOffset t) @ le64 (creationTime t)) = B"
    unfolding B_def by (subst (3) S) (simp add: d)
  ultimately have ptr: "ReadUint32FromBufferLE enc B (int (length S) + 1) =
      Inr (of_nat (encoded_size es), int (length S) + 1 + 4)"
    by simp
  have p: "uint (of_nat (encoded_size es) :: uint32) = int (length (data t))"
    by (simp add: uint_of_nat32 [OF n] ld)
  have "ReadUint64FromBufferLE enc ((data t @ le32 (maxKeyLength t) @ le32 (numEntries t) @
      le32 (numDeletes t) @ le32 (indexOffset t)) @ le64 (creationTime t) @ S)
      (int (length (data t)) + 16) = Inr (creationTime t, int (length (data t)) + 16 + 8)"
    by (rule Read64_le64) simp
  then have r6: "ReadUint64FromBufferLE enc B (int (length (data t)) + 16) =
      Inr (creationTime t, int (length S))"
    by (simp add: B lS ld)
  have hi: "int (length B) - 24 = int (length S + length (data t))"
    by (simp add: B_def lS ld)
  have "take (length S + length (data t)) (S @ S) = S @ take (length (data t)) S" by simp
  also have "take (length (data t)) S = data t" by (simp add: S)
  finally have tk: "take (length S + length (data t)) B = S @ data t"
    by (simp only: B_def)
  have "go_slice B 0 (int (length S + length (data t))) =
      Inr (take (length S + length (data t)) B)"
    by (rule go_slice_prefix) (simp add: B_def lS ld)
  then have sl: "go_slice B 0 (int (length B) - 24) = Inr (S @ data t)"
    by (simp only: hi tk)
  have "(S @ S) ! length S = S ! 0" by (simp add: nth_append)
  also have "S ! 0 = format t" by (simp add: S d built_data_def t_def built_table_fields)
  finally have f: "B ! nat (int (length S)) = format t" by (simp add: B_def)
  have "Deserialize enc s0 B (int (length S)) = Inr (s0\<lparr>format := format t,
      maxKeyLength := maxKeyLength t,
      numEntries := numEntries t, numDeletes := numDeletes t, indexOffset := indexOffset t,
      creationTime := creationTime t, data := S @ data t\<rparr>, int (length S))"
    unfolding Deserialize_at [OF off ptr B p] r6 sl f by simp
  moreover have "s0\<lparr>format := format t, maxKeyLength := maxKeyLength t,
      numEntries := numEntries t, numDeletes := numDeletes t, indexOffset := indexOffset t,
      creationTime := creationTime t, data := S @ data t\<rparr> = t\<lparr>data := S @ data t\<rparr>"
    by (cases s0; cases t) simp
  ultimately show ?thesis by (simp add: B_def S_def t_def)
qed

section \<open>Padded keys\<close>

lemma padded_Cons: "padded m (x # xs) = x # padded (m - 1) xs"
  by (simp add: padded_def)

lemma length_padded: "length k \<le> m \<Longrightarrow> length (padded m k) = m"
  by (simp add: padded_def)

lemma le_append: "(xs :: bytes) \<le> xs @ ys"
  by (induction xs) simp_all

lemma le_padded: "k \<le> padded m k"
  by (simp add: padded_def le_append)

lemma zeros_le: "length xs \<le> m \<Longrightarrow> replicate m (0 :: byte) \<le> xs @ replicate (m - length xs) 0"
proof (induction xs arbitrary: m)
  case Nil
  show ?case by simp
next
  case (Cons x xs)
  then obtain m' where m: "m = Suc m'" by (cases m) auto
  with Cons.prems have "length xs \<le> m'" by simp
  from Cons.IH [OF this] show ?case
    by (cases "x = 0") (simp_all add: m word_gt_0)
qed

lemma padded_mono:
  "a < b \<Longrightarrow> length a \<le> m \<Longrightarrow> length b \<le> m \<Longrightarrow> padded m a \<le> padded m b"
proof (induction a arbitrary: b m)
  case Nil
  from zeros_le [OF Nil.prems(3)] show ?case by (simp add: padded_def)
next
  case (Cons x xs)
  from Cons.prems(1) obtain y ys where b: "b = y # ys" by (cases b) auto
  show ?case
  proof (cases "x < y")
    case True
    then show ?thesis by (simp add: b padded_Cons)
  next
    case False
    with Cons.prems(1) have xy: "x = y" and lt: "xs < ys" by (auto simp: b)
    from Cons.prems(2,3) have "length xs \<le> m - 1" "length ys \<le> m - 1" by (auto simp: b)
    from Cons.IH [OF lt this] show ?thesis by (simp add: b xy padded_Cons)
  qed
qed

section \<open>The binary search\<close>

lemma search_loop_correct:
  fixes pk :: "nat \<Rightarrow> bytes"
  assumes slices: "\<And>i. i < n \<Longrightarrow>
      go_slice (data s) (int i * (uint (maxKeyLength s) + 4) + uint (indexOffset s))
        (int i * (uint (maxKeyLength s) + 4) + uint (indexOffset s) + uint (maxKeyLength s)) =
      Inr (pk i)"
    and mono: "\<And>i j. i \<le> j \<Longrightarrow> j < n \<Longrightarrow> pk i \<le> pk j"
  shows "0 \<le> low \<Longrightarrow> low \<le> high \<Longrightarrow> high < int n \<Longrightarrow>
         (\<forall>i. i < nat low \<longrightarrow> pk i < key) \<Longrightarrow>
         (high < int n - 1 \<longrightarrow> key \<le> pk (nat high)) \<Longrightarrow>
         \<exists>h. search_loop s key low high = Inr h \<and> low \<le> h \<and> h \<le> high \<and>
             (\<forall>i. i < nat h \<longrightarrow> pk i < key) \<and> (h < int n - 1 \<longrightarrow> key \<le> pk (nat h))"
proof (induction "nat (high - low)" arbitrary: low high rule: less_induct)
  case less
  show ?case
  proof (cases "low < high")
    case False
    with less.prems have eq: "low = high" by simp
    have "search_loop s key low high = Inr high"
      by (subst search_loop.simps) (simp add: eq)
    with less.prems show ?thesis by (auto simp: eq)
  next
    case True
    define middle where "middle = low + (high - low) div 2"
    have m: "low \<le> middle" "middle < high" using True by (auto simp: middle_def)
    with less.prems have mn: "nat middle < n" "int (nat middle) = middle" by auto
    from slices [OF mn(1)]
    have sl: "go_slice (data s) (middle * (uint (maxKeyLength s) + 4) + uint (indexOffset s))
        (middle * (uint (maxKeyLength s) + 4) + uint (indexOffset s) + uint (maxKeyLength s)) =
      Inr (pk (nat middle))"
      by (simp only: mn(2))
    show ?thesis
    proof (cases "pk (nat middle) < key")
      case lt: True
      have step: "search_loop s key low high = search_loop s key (middle + 1) high"
        by (subst search_loop.simps)
           (simp add: True Let_def middle_def [symmetric] sl bytes_Compare_less lt)
      have "\<forall>i. i < nat (middle + 1) \<longrightarrow> pk i < key"
      proof (intro allI impI)
        fix i assume "i < nat (middle + 1)"
        with m less.prems have "i \<le> nat middle" by auto
        from mono [OF this mn(1)] lt show "pk i < key" by simp
      qed
      with less.hyps [of high "middle + 1"] less.prems m
      obtain h where "search_loop s key (middle + 1) high = Inr h" "middle + 1 \<le> h" "h \<le> high"
        "\<forall>i. i < nat h \<longrightarrow> pk i < key" "h < int n - 1 \<longrightarrow> key \<le> pk (nat h)"
        by auto
      with m show ?thesis unfolding step by auto
    next
      case ge: False
      have step: "search_loop s key low high = search_loop s key low middle"
        by (subst search_loop.simps)
           (simp add: True Let_def middle_def [symmetric] sl bytes_Compare_less ge)
      from ge have "middle < int n - 1 \<longrightarrow> key \<le> pk (nat middle)"
        by (simp add: not_less)
      with less.hyps [of middle low] less.prems m
      obtain h where "search_loop s key low middle = Inr h" "low \<le> h" "h \<le> middle"
        "\<forall>i. i < nat h \<longrightarrow> pk i < key" "h < int n - 1 \<longrightarrow> key \<le> pk (nat h)"
        by auto
      with m show ?thesis unfolding step by auto
    qed
  qed
qed

lemma findOffset_after_search:
  assumes "search_loop s key 0 (uint (numEntries s) - 1) = Inr h"
    and "go_slice (data s) (h * (uint (maxKeyLength s) + 4) + uint (indexOffset s))
        (h * (uint (maxKeyLength s) + 4) + uint (indexOffset s) + uint (maxKeyLength s)) =
      Inr hk"
  shows "findOffset enc s key =
     (if h = uint (numEntries s) - 1 \<and> hk < key then Inr (- 1)
      else case ReadUint32FromBufferLE enc (data s)
                  (h * (uint (maxKeyLength s) + 4) + uint (indexOffset s) + uint (maxKeyLength s)) of
             Inl p \<Rightarrow> Inl p
           | Inr (off, _) \<Rightarrow> Inr (uint off))"
proof (cases "h = uint (numEntries s) - 1")
  case True
  show ?thesis
    using assms unfolding findOffset_def Let_def True by (simp add: bytes_Compare_less)
next
  case False
  show ?thesis
    using assms False unfolding findOffset_def Let_def by simp
qed

lemma findOffset_abstract:
  fixes pk :: "nat \<Rightarrow> bytes"
  assumes slices: "\<And>i. i < n \<Longrightarrow>
      go_slice (data s) (int i * (uint (maxKeyLength s) + 4) + uint (indexOffset s))
        (int i * (uint (maxKeyLength s) + 4) + uint (indexOffset s) + uint (maxKeyLength s)) =
      Inr (pk i)"
    and reads: "\<And>i. i < n \<Longrightarrow>
      ReadUint32FromBufferLE enc (data s)
        (int i * (uint (maxKeyLength s) + 4) + uint (indexOffset s) + uint (maxKeyLength s)) =
      Inr (off i, q i)"
    and mono: "\<And>i j. i \<le> j \<Longrightarrow> j < n \<Longrightarrow> pk i \<le> pk j"
    and n: "uint (numEntries s) = int n" "0 < n"
  shows "j < n \<Longrightarrow> key \<le> pk j \<Longrightarrow> (\<forall>i. i < j \<longrightarrow> pk i < key) \<Longrightarrow>
           findOffset enc s key = Inr (uint (off j))"
    and "(\<forall>i. i < n \<longrightarrow> pk i < key) \<Longrightarrow> findOffset enc s key = Inr (- 1)"
proof -
  from search_loop_correct [of n s pk 0 "int n - 1" key, OF slices mono] n(2)
  obtain h where h: "search_loop s key 0 (int n - 1) = Inr h" "0 \<le> h" "h \<le> int n - 1"
    "\<forall>i. i < nat h \<longrightarrow> pk i < key" "h < int n - 1 \<longrightarrow> key \<le> pk (nat h)"
    by auto
  then have hn: "nat h < n" "int (nat h) = h" by auto
  from slices [OF hn(1)]
  have sl: "go_slice (data s) (h * (uint (maxKeyLength s) + 4) + uint (indexOffset s))
        (h * (uint (maxKeyLength s) + 4) + uint (indexOffset s) + uint (maxKeyLength s)) =
      Inr (pk (nat h))"
    by (simp only: hn(2))
  from reads [OF hn(1)]
  have rd: "ReadUint32FromBufferLE enc (data s)
        (h * (uint (maxKeyLength s) + 4) + uint (indexOffset s) + uint (maxKeyLength s)) =
      Inr (off (nat h), q (nat h))"
    by (simp only: hn(2))
  have s1: "search_loop s key 0 (uint (numEntries s) - 1) = Inr h"
    using h(1) by (simp only: n(1))
  have fo: "findOffset enc s key =
      (if h = int n - 1 \<and> pk (nat h) < key then Inr (- 1) else Inr (uint (off (nat h))))"
    unfolding findOffset_after_search [OF s1 sl] rd n(1) by auto
  {
    assume j: "j < n" "key \<le> pk j" "\<forall>i. i < j \<longrightarrow> pk i < key"
    have "\<not> j < nat h" using h(4) j(2) by (auto simp: not_less [symmetric] simp del: not_less)
    moreover have "\<not> nat h < j"
    proof
      assume lt: "nat h < j"
      with j(1) hn have "h < int n - 1" by linarith
      with h(5) have "key \<le> pk (nat h)" by simp
      with j(3) lt show False by auto
    qed
    ultimately have "nat h = j" by simp
    with fo j(2) show "findOffset enc s key = Inr (uint (off j))" by auto
  }
  {
    assume all: "\<forall>i. i < n \<longrightarrow> pk i < key"
    have "\<not> h < int n - 1"
    proof
      assume "h < int n - 1"
      with h(5) have "key \<le> pk (nat h)" by simp
      with all hn(1) show False by auto
    qed
    with h(3) have "h = int n - 1" by simp
    with fo all hn(1) show "findOffset enc s key = Inr (- 1)" by simp
  }
qed

section \<open>The index of a built table\<close>

lemma index_record_padded: "index_record m e = padded m (fst e) @ le32 (snd e)"
  by (simp add: index_record_def padded_def)

lemma index_entries_nth:
  "i < length es \<Longrightarrow>
   index_entries b es ! i =
     (Key (es ! i), of_nat (b + length (concat (map encode_entry (take i es)))))"
proof (induction es arbitrary: b i)
  case Nil
  then show ?case by simp
next
  case (Cons kv es)
  show ?case
  proof (cases i)
    case 0
    then show ?thesis by simp
  next
    case (Suc i')
    with Cons.prems have "i' < length es" by simp
    from Cons.IH [OF this, of "b + length (encode_entry kv)"] show ?thesis
      by (simp add: Suc add.assoc)
  qed
qed

lemma index_keys_bounded:
  "\<forall>e \<in> set (index_entries b es). length (fst e) \<le> max_key_length 0 es"
proof
  fix e assume "e \<in> set (index_entries b es)"
  then have "fst e \<in> set (map fst (index_entries b es))" by simp
  then obtain kv where "kv \<in> set es" "fst e = Key kv"
    unfolding map_fst_index_entries by auto
  then show "length (fst e) \<le> max_key_length 0 es"
    using max_key_length_ge by simp
qed

lemma go_slice_middle:
  "lo = int (length X) \<Longrightarrow> hi = lo + int (length k) \<Longrightarrow> go_slice (X @ k @ Y) lo hi = Inr k"
  by (simp add: go_slice_def)

lemma built_data_index_split:
  assumes i: "i < length es"
  shows "\<exists>X Y. built_data fmt es =
            X @ padded (max_key_length 0 es) (Key (es ! i)) @
            le32 (of_nat (entry_offset es i)) @ Y \<and>
          length X = 5 + length (concat (map encode_entry es)) + i * (max_key_length 0 es + 4)"
proof -
  define M where "M = max_key_length 0 es"
  define idx where "idx = index_entries 5 es"
  have li: "i < length idx" using i by (simp add: idx_def)
  have bounded: "\<forall>e \<in> set (take i idx). length (fst e) \<le> M"
    using index_keys_bounded [of 5 es] by (auto simp: idx_def M_def dest: in_set_takeD)
  have nth: "idx ! i = (Key (es ! i), of_nat (entry_offset es i))"
    using index_entries_nth [OF i, of 5] by (simp add: idx_def entry_offset_def)
  have "idx = take i idx @ idx ! i # drop (Suc i) idx"
    using li by (rule id_take_nth_drop)
  then have "concat (map (index_record M) idx) =
      concat (map (index_record M) (take i idx)) @ index_record M (idx ! i) @
      concat (map (index_record M) (drop (Suc i) idx))"
    by (metis concat.simps(2) concat_append list.simps(9) map_append)
  then have split: "concat (map (index_record M) idx) =
      concat (map (index_record M) (take i idx)) @ padded M (Key (es ! i)) @
      le32 (of_nat (entry_offset es i)) @ concat (map (index_record M) (drop (Suc i) idx))"
    by (simp add: nth index_record_padded)
  have len: "length (concat (map (index_record M) (take i idx))) = i * (M + 4)"
    using length_index_region_gen [OF bounded] li by simp
  define X where "X = fmt # le32 (of_nat (encoded_size es)) @ concat (map encode_entry es) @
      concat (map (index_record M) (take i idx))"
  have "built_data fmt es = X @ padded M (Key (es ! i)) @ le32 (of_nat (entry_offset es i)) @
      concat (map (index_record M) (drop (Suc i) idx))"
    unfolding built_data_def M_def [symmetric] idx_def [symmetric] split X_def by simp
  moreover have "length X = 5 + length (concat (map encode_entry es)) + i * (M + 4)"
    by (simp add: X_def len)
  ultimately show ?thesis unfolding M_def by blast
qed

lemma built_data_entry_split:
  assumes j: "j < length es"
  shows "\<exists>X Y. built_data fmt es =
            X @ le32 (of_nat (length (Key (es ! j)))) @ Key (es ! j) @ Y \<and>
          length X = entry_offset es j"
proof -
  have "es = take j es @ es ! j # drop (Suc j) es"
    using j by (rule id_take_nth_drop)
  then have "concat (map encode_entry es) =
      concat (map encode_entry (take j es)) @ encode_entry (es ! j) @
      concat (map encode_entry (drop (Suc j) es))"
    by (metis concat.simps(2) concat_append list.simps(9) map_append)
  then have "built_data fmt es =
      (fmt # le32 (of_nat (encoded_size es)) @ concat (map encode_entry (take j es))) @
      le32 (of_nat (length (Key (es ! j)))) @ Key (es ! j) @
      (le32 (of_nat (length (Value (es ! j)))) @ Value (es ! j) @
       concat (map encode_entry (drop (Suc j) es)) @
       concat (map (index_record (max_key_length 0 es)) (index_entries 5 es)))"
    by (simp add: built_data_def encode_entry_def)
  moreover have "length (fmt # le32 (of_nat (encoded_size es)) @
      concat (map encode_entry (take j es))) = entry_offset es j"
    by (simp add: entry_offset_def)
  ultimately show ?thesis by blast
qed

lemma entry_offset_le:
  "entry_offset es j \<le> 5 + length (concat (map encode_entry es))"
proof -
  have "concat (map encode_entry es) =
      concat (map encode_entry (take j es)) @ concat (map encode_entry (drop j es))"
    by (metis append_take_drop_id concat_append map_append)
  then have "length (concat (map encode_entry (take j es))) \<le> length (concat (map encode_entry es))"
    by simp
  then show ?thesis by (simp add: entry_offset_def)
qed

lemma stored_key_at_built:
  assumes j: "j < length es"
  shows "stored_key_at enc (built_data fmt es) (int (entry_offset es j)) (Key (es ! j))"
proof -
  from built_data_entry_split [OF j] obtain X Y where
    d: "built_data fmt es = X @ le32 (of_nat (length (Key (es ! j)))) @ Key (es ! j) @ Y"
    and lX: "length X = entry_offset es j" by blast
  have "ReadUint32FromBufferLE enc (built_data fmt es) (int (entry_offset es j)) =
      Inr (of_nat (length (Key (es ! j))), int (entry_offset es j) + 4)"
    unfolding d by (rule Read32_le32) (simp add: lX)
  moreover have "go_slice ((X @ le32 (of_nat (length (Key (es ! j))))) @ Key (es ! j) @ Y)
      (int (entry_offset es j) + 4) (int (entry_offset es j) + 4 + int (length (Key (es ! j)))) =
      Inr (Key (es ! j))"
    by (rule go_slice_middle) (simp_all add: lX)
  ultimately show ?thesis by (simp add: stored_key_at_def d)
qed

lemma built_table_uint:
  assumes "encoded_size es \<le> 4294967295"
  shows "uint (maxKeyLength (built_table fmt now es)) = int (max_key_length 0 es)"
    and "uint (numEntries (built_table fmt now es)) = int (length es)"
    and "uint (indexOffset (built_table fmt now es)) =
           int (5 + length (concat (map encode_entry es)))"
  by (simp_all only: uint_nat built_table_unat [OF assms])

lemma built_slices:
  assumes n: "encoded_size es \<le> 4294967295" and i: "i < length es"
  shows "go_slice (data (built_table fmt now es))
      (int i * (uint (maxKeyLength (built_table fmt now es)) + 4) +
       uint (indexOffset (built_table fmt now es)))
      (int i * (uint (maxKeyLength (built_table fmt now es)) + 4) +
       uint (indexOffset (built_table fmt now es)) +
       uint (maxKeyLength (built_table fmt now es))) =
    Inr (padded (max_key_length 0 es) (Key (es ! i)))"
proof -
  from built_data_index_split [OF i] obtain X Y where
    d: "built_data fmt es = X @ padded (max_key_length 0 es) (Key (es ! i)) @
      le32 (of_nat (entry_offset es i)) @ Y"
    and lX: "length X =
      5 + length (concat (map encode_entry es)) + i * (max_key_length 0 es + 4)" by blast
  have lk: "length (padded (max_key_length 0 es) (Key (es ! i))) = max_key_length 0 es"
    using i by (intro length_padded max_key_length_ge) simp
  show ?thesis
    unfolding built_table_uint [OF n] unfolding built_table_fields d
    by (rule go_slice_middle) (simp_all add: lX lk)
qed

lemma built_reads:
  assumes n: "encoded_size es \<le> 4294967295" and i: "i < length es"
  shows "ReadUint32FromBufferLE enc (data (built_table fmt now es))
      (int i * (uint (maxKeyLength (built_table fmt now es)) + 4) +
       uint (indexOffset (built_table fmt now es)) +
       uint (maxKeyLength (built_table fmt now es))) =
    Inr (of_nat (entry_offset es i),
         int i * (uint (maxKeyLength (built_table fmt now es)) + 4) +
         uint (indexOffset (built_table fmt now es)) +
         uint (maxKeyLength (built_table fmt now es)) + 4)"
proof -
  from built_data_index_split [OF i] obtain X Y where
    d: "built_data fmt es = X @ padded (max_key_length 0 es) (Key (es ! i)) @
      le32 (of_nat (entry_offset es i)) @ Y"
    and lX: "length X =
      5 + length (concat (map encode_entry es)) + i * (max_key_length 0 es + 4)" by blast
  have lk: "length (padded (max_key_length 0 es) (Key (es ! i))) = max_key_length 0 es"
    using i by (intro length_padded max_key_length_ge) simp
  have "ReadUint32FromBufferLE enc ((X @ padded (max_key_length 0 es) (Key (es ! i))) @
      le32 (of_nat (entry_offset es i)) @ Y)
      (int i * (int (max_key_length 0 es) + 4) +
       int (5 + length (concat (map encode_entry es))) + int (max_key_length 0 es)) =
    Inr (of_nat (entry_offset es i),
      int i * (int (max_key_length 0 es) + 4) +
       int (5 + length (concat (map encode_entry es))) + int (max_key_length 0 es) + 4)"
    by (rule Read32_le32) (simp add: lX lk)
  then show ?thesis
    unfolding built_table_uint [OF n] unfolding built_table_fields d by simp
qed

lemma padded_keys_mono:
  assumes s: "sorted_wrt (<) (map Key es)" and ij: "i \<le> j" "j < length es"
  shows "padded (max_key_length 0 es) (Key (es ! i)) \<le> padded (max_key_length 0 es) (Key (es ! j))"
proof (cases "i = j")
  case True
  then show ?thesis by simp
next
  case False
  with ij have lt: "i < j" by simp
  from sorted_wrt_nth_less [OF s lt] ij have "Key (es ! i) < Key (es ! j)" by simp
  moreover have "length (Key (es ! i)) \<le> max_key_length 0 es"
    "length (Key (es ! j)) \<le> max_key_length 0 es"
    using ij lt by (auto intro!: max_key_length_ge)
  ultimately show ?thesis by (rule padded_mono)
qed

lemma findOffset_built:
  assumes n: "encoded_size es \<le> 4294967295" and s: "sorted_wrt (<) (map Key es)"
  shows "j < length es \<Longrightarrow> key \<le> padded (max_key_length 0 es) (Key (es ! j)) \<Longrightarrow>
         (\<forall>i. i < j \<longrightarrow> padded (max_key_length 0 es) (Key (es ! i)) < key) \<Longrightarrow>
         findOffset enc (built_table fmt now es) key = Inr (int (entry_offset es j))"
    and "es \<noteq> [] \<Longrightarrow>
         (\<forall>i. i < length es \<longrightarrow> padded (max_key_length 0 es) (Key (es ! i)) < key) \<Longrightarrow>
         findOffset enc (built_table fmt now es) key = Inr (- 1)"
proof -
  define t where "t = built_table fmt now es"
  define pk where "pk = (\<lambda>i. padded (max_key_length 0 es) (Key (es ! i)))"
  define off where "off = (\<lambda>i. (of_nat (entry_offset es i) :: uint32))"
  define q where "q = (\<lambda>i. int i * (uint (maxKeyLength t) + 4) + uint (indexOffset t) +
      uint (maxKeyLength t) + 4)"
  have slices: "\<And>i. i < length es \<Longrightarrow>
      go_slice (data t) (int i * (uint (maxKeyLength t) + 4) + uint (indexOffset t))
        (int i * (uint (maxKeyLength t) + 4) + uint (indexOffset t) + uint (maxKeyLength t)) =
      Inr (pk i)"
    unfolding t_def pk_def by (rule built_slices [OF n])
  have reads: "\<And>i. i < length es \<Longrightarrow>
      ReadUint32FromBufferLE enc (data t)
        (int i * (uint (maxKeyLength t) + 4) + uint (indexOffset t) + uint (maxKeyLength t)) =
      Inr (off i, q i)"
    unfolding t_def off_def q_def by (rule built_reads [OF n])
  have mono: "\<And>i j. i \<le> j \<Longrightarrow> j < length es \<Longrightarrow> pk i \<le> pk j"
    unfolding pk_def by (rule padded_keys_mono [OF s])
  have ne: "uint (numEntries t) = int (length es)"
    unfolding t_def by (rule built_table_uint [OF n])
  have offs: "uint (off j) = int (entry_offset es j)" for j
  proof -
    have "entry_offset es j \<le> encoded_size es"
      using entry_offset_le [of es j] entries_region_le_encoded_size [of es] by linarith
    with n have "entry_offset es j \<le> 4294967295" by linarith
    then show ?thesis unfolding off_def by (rule uint_of_nat32)
  qed
  {
    assume j: "j < length es" "key \<le> padded (max_key_length 0 es) (Key (es ! j))"
      "\<forall>i. i < j \<longrightarrow> padded (max_key_length 0 es) (Key (es ! i)) < key"
    from j(1) have pos: "0 < length es" by linarith
    from findOffset_abstract(1) [of "length es" t pk enc off q j key, OF slices reads mono ne pos] j
    show "findOffset enc (built_table fmt now es) key = Inr (int (entry_offset es j))"
      by (simp add: pk_def t_def offs)
  }
  {
    assume a: "es \<noteq> []"
      "\<forall>i. i < length es \<longrightarrow> padded (max_key_length 0 es) (Key (es ! i)) < key"
    from a(1) have pos: "0 < length es" by simp
    from findOffset_abstract(2) [of "length es" t pk enc off q key, OF slices reads mono ne pos] a
    show "findOffset enc (built_table fmt now es) key = Inr (- 1)"
      by (simp add: pk_def t_def)
  }
qed

lemma findOffset_empty_table:
  "key \<noteq> [] \<Longrightarrow> findOffset enc (built_table fmt now []) key = Inr (- 1)"
proof -
  have "search_loop (built_table fmt now []) key 0 (- 1) = Inr (- 1)"
    by (subst search_loop.simps) simp
  moreover assume "key \<noteq> []"
  then have "bytes_Compare [] key < 0" by (cases key) simp_all
  ultimately show ?thesis
    by (simp add: findOffset_def built_table_def built_data_def go_slice_def Let_def)
qed

section \<open>The table with a key that extends another by a zero byte\<close>

lemma prefix_encoded_size: "encoded_size prefix_entries = 64"
  by (simp add: encoded_size_def prefix_entries_def)

lemma prefix_max_key_length: "max_key_length 0 prefix_entries = 9"
  by (simp add: prefix_entries_def)

lemma prefix_entries_region:
  "concat (map encode_entry prefix_entries) =
     [8, 0, 0, 0, 1, 1, 1, 1, 1, 1, 1, 1, 0, 0, 0, 0,
      9, 0, 0, 0, 1, 1, 1, 1, 1, 1, 1, 1, 0, 0, 0, 0, 0]"
  by (simp add: prefix_entries_def encode_entry_def le32_def AppendUint32ToBufferLE_def)

lemma prefix_index_entries:
  "index_entries 5 prefix_entries =
     [([1, 1, 1, 1, 1, 1, 1, 1], 5), ([1, 1, 1, 1, 1, 1, 1, 1, 0], 21)]"
  by (simp add: prefix_entries_def length_encode_entry)

lemma prefix_index_region:
  "concat (map (index_record 9) (index_entries 5 prefix_entries)) =
     [1, 1, 1, 1, 1, 1, 1, 1, 0, 5, 0, 0, 0,
      1, 1, 1, 1, 1, 1, 1, 1, 0, 21, 0, 0, 0]"
  unfolding prefix_index_entries
  by (simp add: index_record_def le32_def AppendUint32ToBufferLE_def)

lemma prefix_versions:
  "versions prefix_entries = [18374403900871474942, 18374403900871474943]"
  by (simp add: versions_def prefix_entries_def be_uint64_def)

lemma prefix_built_table: "built_table 7 1234 prefix_entries = prefix_table"
  unfolding built_table_def built_data_def prefix_encoded_size prefix_max_key_length
    prefix_index_region prefix_entries_region
  by (simp add: prefix_table_def prefix_entries_def le32_def AppendUint32ToBufferLE_def)

lemma prefix_build:
  "BuildSSTable 7 0 0 1234 (iter_of prefix_entries) =
     Inr (prefix_table, Some [1, 1, 1, 1, 1, 1, 1, 1], Some [1, 1, 1, 1, 1, 1, 1, 1, 0],
          18374403900871474942, 18374403900871474943)"
proof -
  have "ascending_from None prefix_entries"
    and "\<forall>kv \<in> set prefix_entries. 8 \<le> length (Key kv)"
    by (simp_all add: prefix_entries_def)
  then have "BuildSSTable 7 0 0 1234 (iter_of prefix_entries) =
      Inr (built_result 7 1234 prefix_entries)"
    by (simp add: BuildSSTable_valid prefix_encoded_size)
  moreover have "built_result 7 1234 prefix_entries =
     (prefix_table, Some [1, 1, 1, 1, 1, 1, 1, 1], Some [1, 1, 1, 1, 1, 1, 1, 1, 0],
          18374403900871474942, 18374403900871474943)"
    unfolding built_result_def prefix_built_table prefix_versions
    by (simp add: prefix_entries_def)
  ultimately show ?thesis by simp
qed

lemma prefix_sorted: "sorted_wrt (<) (map Key prefix_entries)"
  by (simp add: prefix_entries_def)

lemma example_sorted: "sorted_wrt (<) (map Key example_entries)"
  by (simp add: example_entries_def)

lemma prefix_findOffset:
  "findOffset enc prefix_table [1, 1, 1, 1, 1, 1, 1, 1, 0] = Inr 5"
proof -
  have n: "encoded_size prefix_entries \<le> 4294967295" by (simp add: prefix_encoded_size)
  have "findOffset enc (built_table 7 1234 prefix_entries) [1, 1, 1, 1, 1, 1, 1, 1, 0] =
      Inr (int (entry_offset prefix_entries 0))"
    by (rule findOffset_built(1) [OF n prefix_sorted])
       (simp_all add: prefix_max_key_length, simp_all add: prefix_entries_def padded_def)
  then show ?thesis
    by (simp add: prefix_built_table entry_offset_def)
qed

lemma prefix_stored_key:
  "stored_key_at enc (data prefix_table) 5 [1, 1, 1, 1, 1, 1, 1, 1]"
proof -
  have "stored_key_at enc (built_data 7 prefix_entries) (int (entry_offset prefix_entries 0))
      (Key (prefix_entries ! 0))"
    by (rule stored_key_at_built) (simp add: prefix_entries_def)
  moreover have "data prefix_table = built_data 7 prefix_entries"
    unfolding prefix_built_table [symmetric] by (simp add: built_table_fields)
  ultimately show ?thesis by (simp add: entry_offset_def) (simp add: prefix_entries_def)
qed

lemma example_findOffset:
  "findOffset enc example_table [98, 255, 255, 255, 255, 255, 255, 255, 252] = Inr 24"
  "findOffset enc example_table [0] = Inr 5"
  "findOffset enc example_table [100] = Inr (- 1)"
proof -
  have n: "encoded_size example_entries \<le> 4294967295" by (simp add: example_encoded_size)
  have "findOffset enc (built_table 7 1234 example_entries)
      [98, 255, 255, 255, 255, 255, 255, 255, 252] = Inr (int (entry_offset example_entries 1))"
    by (rule findOffset_built(1) [OF n example_sorted])
       (simp_all add: example_max_key_length, simp_all add: example_entries_def padded_def)
  then show "findOffset enc example_table [98, 255, 255, 255, 255, 255, 255, 255, 252] = Inr 24"
    by (simp add: example_built_table entry_offset_def)
       (simp add: example_entries_def length_encode_entry)
  have "findOffset enc (built_table 7 1234 example_entries) [0] =
      Inr (int (entry_offset example_entries 0))"
    by (rule findOffset_built(1) [OF n example_sorted])
       (simp_all add: example_max_key_length, simp_all add: example_entries_def padded_def)
  then show "findOffset enc example_table [0] = Inr 5"
    by (simp add: example_built_table entry_offset_def)
  have lt: "padded 10 (Key (example_entries ! i)) < [100]" if "i < 3" for i
  proof -
    from that have "i = 0 \<or> i = 1 \<or> i = 2" by auto
    then show ?thesis by (auto simp: example_entries_def padded_def)
  qed
  have len: "length example_entries = 3" by (simp add: example_entries_def)
  have all: "\<forall>i. i < length example_entries \<longrightarrow>
      padded (max_key_length 0 example_entries) (Key (example_entries ! i)) < [100]"
    unfolding len example_max_key_length using lt by blast
  have ne: "example_entries \<noteq> []" by (simp add: example_entries_def)
  have "findOffset enc (built_table 7 1234 example_entries) [100] = Inr (- 1)"
    by (rule findOffset_built(2) [OF n example_sorted ne all])
  then show "findOffset enc example_table [100] = Inr (- 1)"
    by (simp add: example_built_table)
qed

section \<open>Claims\<close>

text \<open>
  Claim C6 (ordering enforcement). If the iterator presents two consecutive entries of
  which the second key is not strictly greater than the first under \<^verbatim>\<open>bytes.Compare\<close>,
  \<open>BuildSSTable\<close> ends in a panic and returns no table. The panic is the explicit
  one of the order check whenever the estimates are not negative and every key
  carries its eight bytes of version; a shorter key met before the pair stops the
  build earlier, in the panic of the version extraction.
\<close>

theorem ordering_enforcement:
  assumes "Suc i < length (entries_of it)"
    and "bytes_Compare (Key (entries_of it ! i)) (Key (entries_of it ! Suc i)) \<ge> 0"
  shows "(\<exists>p. BuildSSTable fmt bse ee now it = Inl (Panic p)) \<and>
         (0 \<le> bse \<and> 0 \<le> ee \<and> (\<forall>kv \<in> set (entries_of it). 8 \<le> length (Key kv)) \<longrightarrow>
          BuildSSTable fmt bse ee now it = Inl (Panic KeysNotInOrder))"
proof -
  from assms have na: "\<not> ascending_from (l_prevKey (initial_locals fmt)) (entries_of it)"
    unfolding ascending_from_nth initial_prevKey by (auto simp: not_less)
  from entries_loop_panics [OF na] obtain p
    where "entries_loop (initial_locals fmt) it = Inl (Panic p)" ..
  then have "\<exists>p. BuildSSTable fmt bse ee now it = Inl (Panic p)"
    by (auto simp: BuildSSTable_Inl)
  moreover have "BuildSSTable fmt bse ee now it = Inl (Panic KeysNotInOrder)"
    if "0 \<le> bse" "0 \<le> ee" "\<forall>kv \<in> set (entries_of it). 8 \<le> length (Key kv)"
    using entries_loop_keys_not_in_order [OF na that(3)] that(1,2)
    by (simp add: BuildSSTable_Inl)
  ultimately show ?thesis by blast
qed

theorem ordering_enforcement_witness:
  "Suc 0 < length (entries_of (iter_of [KV [2, 2, 2, 2, 2, 2, 2, 2] [], KV [1, 1, 1, 1, 1, 1, 1, 1] []])) \<and>
   bytes_Compare (Key (entries_of (iter_of [KV [2, 2, 2, 2, 2, 2, 2, 2] [], KV [1, 1, 1, 1, 1, 1, 1, 1] []]) ! 0))
     (Key (entries_of (iter_of [KV [2, 2, 2, 2, 2, 2, 2, 2] [], KV [1, 1, 1, 1, 1, 1, 1, 1] []]) ! Suc 0)) \<ge> 0 \<and>
   BuildSSTable 7 0 0 1234 (iter_of [KV [2, 2, 2, 2, 2, 2, 2, 2] [], KV [1, 1, 1, 1, 1, 1, 1, 1] []]) =
     Inl (Panic KeysNotInOrder)"
  using ordering_enforcement [of 0 "iter_of [KV [2, 2, 2, 2, 2, 2, 2, 2] [], KV [1, 1, 1, 1, 1, 1, 1, 1] []]" 7 0 0 1234]
  by simp

text \<open>
  Claim C10 (implicit precondition on the length of keys). The version is cut out of
  the last eight bytes of the key with no check of its length: a build whose first
  key is shorter than eight bytes panics with a slice bound out of range, and when
  every key has at least eight bytes no build ends in that panic (nor in an index
  out of range).
\<close>

theorem implicit_key_length_precondition:
  "(0 \<le> bse \<and> 0 \<le> ee \<and> length (Key kv) < 8 \<longrightarrow>
      BuildSSTable fmt bse ee now (Entry kv rest) = Inl (Panic SliceBoundsOutOfRange)) \<and>
   ((\<forall>kv \<in> set (entries_of it). 8 \<le> length (Key kv)) \<longrightarrow>
      BuildSSTable fmt bse ee now it \<noteq> Inl (Panic SliceBoundsOutOfRange) \<and>
      BuildSSTable fmt bse ee now it \<noteq> Inl (Panic IndexOutOfRange))"
proof -
  have "loop_body (initial_locals fmt) kv = Inl (Panic SliceBoundsOutOfRange)"
    if "length (Key kv) < 8"
    using that by (simp add: loop_body_Inl initial_prevKey)
  then have a: "BuildSSTable fmt bse ee now (Entry kv rest) = Inl (Panic SliceBoundsOutOfRange)"
    if "0 \<le> bse" "0 \<le> ee" "length (Key kv) < 8"
    using that by (simp add: BuildSSTable_Inl)
  have b: "p = KeysNotInOrder \<or> p = MakeSliceCapOutOfRange"
    if "\<forall>kv \<in> set (entries_of it). 8 \<le> length (Key kv)"
      and "BuildSSTable fmt bse ee now it = Inl (Panic p)" for p
    using that(2) entries_loop_no_bounds_panic [OF that(1), of "initial_locals fmt" p]
    by (auto simp: BuildSSTable_Inl split: if_splits sum.splits)
  from a b show ?thesis by fastforce
qed

theorem implicit_key_length_precondition_witness:
  "((0::int) \<le> 0 \<and> (0::int) \<le> 0 \<and> length (Key (KV [1, 2, 3] [4])) < 8) \<and>
   BuildSSTable 7 0 0 1234 (Entry (KV [1, 2, 3] [4]) Exhausted) = Inl (Panic SliceBoundsOutOfRange) \<and>
   list_all (\<lambda>kv. 8 \<le> length (Key kv)) (entries_of (iter_of [KV [1, 1, 1, 1, 1, 1, 1, 1] []])) \<and>
   BuildSSTable 7 0 0 1234 (iter_of [KV [1, 1, 1, 1, 1, 1, 1, 1] []]) \<noteq> Inl (Panic SliceBoundsOutOfRange)"
  using implicit_key_length_precondition [of 0 0 "KV [1, 2, 3] [4]" 7 1234 Exhausted
      "iter_of [KV [1, 1, 1, 1, 1, 1, 1, 1] []]"]
  by simp


text \<open>
  Claim C9 (version bounds). When \<open>BuildSSTable\<close> returns for an iterator that
  presented at least one entry, the version of every entry, which is
  \<^verbatim>\<open>MaxUint64\<close> minus the big-endian \<^verbatim>\<open>uint64\<close> in the last eight bytes of its key, lies
  between the returned \<open>minVersion\<close> and \<open>maxVersion\<close>, and each of the two bounds is the
  version of some entry.
\<close>

theorem version_bounds:
  assumes "BuildSSTable fmt bse ee now it = Inr (t, sk, lk, mn, mx)"
    and "entries_of it \<noteq> []"
  shows "(\<forall>kv \<in> set (entries_of it).
            version_of (Key kv) = Inr (- 1 - be_uint64 (drop (length (Key kv) - 8) (Key kv))) \<and>
            mn \<le> - 1 - be_uint64 (drop (length (Key kv) - 8) (Key kv)) \<and>
            - 1 - be_uint64 (drop (length (Key kv) - 8) (Key kv)) \<le> mx) \<and>
         (\<exists>kv \<in> set (entries_of it). - 1 - be_uint64 (drop (length (Key kv) - 8) (Key kv)) = mn) \<and>
         (\<exists>kv \<in> set (entries_of it). - 1 - be_uint64 (drop (length (Key kv) - 8) (Key kv)) = mx)"
proof -
  define es where "es = entries_of it"
  define ver where "ver = (\<lambda>kv. - 1 - be_uint64 (drop (length (Key kv) - 8) (Key kv)))"
  have ver: "- 1 - be_uint64 (drop (length (Key kv) - 8) (Key kv)) = ver kv" for kv
    by (simp add: ver_def)
  have vs: "set (versions es) = ver ` set es" by (simp add: versions_def ver_def)
  from assms(1) [unfolded BuildSSTable_Inr] obtain l where
    loop: "entries_loop (initial_locals fmt) it = Inr l"
    and m: "mn = l_minVersion l" "mx = l_maxVersion l" by blast
  have keys: "\<forall>kv \<in> set es. 8 \<le> length (Key kv)"
    using entries_loop_keys [OF loop] by (simp add: es_def)
  from entries_loop_versions [OF loop]
  have bounds: "\<forall>v \<in> ver ` set es. mn \<le> v \<and> v \<le> mx"
    and lo: "mn = - 1 \<or> mn \<in> ver ` set es"
    and hi: "mx = 0 \<or> mx \<in> ver ` set es"
    unfolding m initial_locals_fields es_def [symmetric] vs by blast+
  from assms(2) obtain kv0 where kv0: "kv0 \<in> set es" by (cases es) (auto simp: es_def)
  have "mn \<in> ver ` set es"
  proof (cases "mn = - 1")
    case True
    with bounds kv0 have "- 1 \<le> ver kv0" by blast
    then have "ver kv0 = - 1" by (simp add: word_order.extremum_unique)
    with True kv0 show ?thesis by force
  next
    case False
    with lo show ?thesis by blast
  qed
  moreover have "mx \<in> ver ` set es"
  proof (cases "mx = 0")
    case True
    with bounds kv0 have "ver kv0 \<le> 0" by blast
    then have "ver kv0 = 0" by simp
    with True kv0 show ?thesis by force
  next
    case False
    with hi show ?thesis by blast
  qed
  moreover have "\<forall>kv \<in> set es. version_of (Key kv) = Inr (ver kv)"
    using keys by (auto simp: version_of_eq ver_def)
  ultimately show ?thesis using bounds
    unfolding es_def [symmetric] ver by auto
qed

theorem version_bounds_witness:
  "BuildSSTable 7 0 0 1234 (iter_of example_entries) =
     Inr (example_table, Some [97, 255, 255, 255, 255, 255, 255, 255, 250],
          Some [99, 100, 255, 255, 255, 255, 255, 255, 255, 246], 3, 9) \<and>
   entries_of (iter_of example_entries) \<noteq> [] \<and>
   list_all (\<lambda>kv. (3 :: uint64) \<le> - 1 - be_uint64 (drop (length (Key kv) - 8) (Key kv)) \<and>
                  - 1 - be_uint64 (drop (length (Key kv) - 8) (Key kv)) \<le> 9) example_entries"
proof -
  have ne: "entries_of (iter_of example_entries) \<noteq> []" by (simp add: example_entries_def)
  from version_bounds [OF example_build ne] example_build ne show ?thesis
    by (simp add: list_all_iff)
qed

text \<open>
  Claim C8 (delete accounting). In a table that \<open>BuildSSTable\<close> returned, \<open>numDeletes\<close>
  is the number of entries whose value has length zero, \<open>numEntries\<close> is the number
  of entries, and with \<open>numEntries > 0\<close> \<open>DeleteRatio\<close> is the quotient of the two.
\<close>

theorem delete_accounting:
  assumes "BuildSSTable fmt bse ee now it = Inr (t, sk, lk, mn, mx)"
  shows "unat (numDeletes t) = length (filter (\<lambda>kv. length (Value kv) = 0) (entries_of it)) \<and>
         unat (numEntries t) = length (entries_of it) \<and>
         (0 < unat (numEntries t) \<longrightarrow>
            DeleteRatio t = Finite (real (unat (numDeletes t)) / real (unat (numEntries t))))"
proof -
  from BuildSSTable_table [OF assms]
  have t: "t = built_table fmt now (entries_of it)"
    and n: "encoded_size (entries_of it) \<le> 4294967295" by simp_all
  have "0 < unat (numEntries t) \<Longrightarrow> numEntries t \<noteq> 0" by auto
  then show ?thesis
    unfolding t built_table_unat [OF n] by (auto simp: DeleteRatio_def built_table_unat [OF n])
qed

theorem delete_accounting_witness:
  "BuildSSTable 7 0 0 1234 (iter_of example_entries) =
     Inr (example_table, Some [97, 255, 255, 255, 255, 255, 255, 255, 250],
          Some [99, 100, 255, 255, 255, 255, 255, 255, 255, 246], 3, 9) \<and>
   unat (numDeletes example_table) = 1 \<and> unat (numEntries example_table) = 3 \<and>
   DeleteRatio example_table = Finite (1 / 3)"
proof -
  from delete_accounting [OF example_build]
  have "0 < unat (numEntries example_table) \<longrightarrow>
      DeleteRatio example_table =
        Finite (real (unat (numDeletes example_table)) / real (unat (numEntries example_table)))"
    by blast
  then have "DeleteRatio example_table = Finite (1 / 3)"
    by (simp add: example_table_fields)
  with example_build show ?thesis by (simp add: example_table_fields)
qed

text \<open>
  Claim C7 (capacity overflow). When the encoded size of the presented entries, the
  length the buffer has after the index was written, exceeds \<^verbatim>\<open>math.MaxUint32\<close>,
  \<open>BuildSSTable\<close> returns no table; on an iterator that does not fail, with keys in
  strictly ascending order and of at least eight bytes, and with estimates that are
  not negative, what it returns is the error \<^verbatim>\<open>SSTable too big\<close>.
\<close>

theorem capacity_overflow:
  assumes "encoded_size (entries_of it) > 4294967295"
  shows "(\<forall>r. BuildSSTable fmt bse ee now it \<noteq> Inr r) \<and>
         (error_free it \<and> ascending_from None (entries_of it) \<and>
          (\<forall>kv \<in> set (entries_of it). 8 \<le> length (Key kv)) \<and> 0 \<le> bse \<and> 0 \<le> ee \<longrightarrow>
          BuildSSTable fmt bse ee now it = Inl SSTableTooBig)"
proof -
  have "BuildSSTable fmt bse ee now it \<noteq> Inr r" for r
    using BuildSSTable_Inr_built [of fmt bse ee now it r] assms by auto
  moreover have "BuildSSTable fmt bse ee now it = Inl SSTableTooBig"
    if "error_free it" "ascending_from None (entries_of it)"
      "\<forall>kv \<in> set (entries_of it). 8 \<le> length (Key kv)" "0 \<le> bse" "0 \<le> ee"
    using BuildSSTable_valid [OF that, of fmt now] assms by simp
  ultimately show ?thesis by blast
qed

theorem capacity_overflow_witness:
  "encoded_size (entries_of (iter_of [KV (replicate 8 1) (replicate 4294967296 0)])) > 4294967295 \<and>
   error_free (iter_of [KV (replicate 8 1) (replicate 4294967296 0)]) \<and>
   ascending_from None (entries_of (iter_of [KV (replicate 8 1) (replicate 4294967296 0)])) \<and>
   list_all (\<lambda>kv. 8 \<le> length (Key kv)) (entries_of (iter_of [KV (replicate 8 1) (replicate 4294967296 0)])) \<and>
   BuildSSTable 7 0 0 1234 (iter_of [KV (replicate 8 1) (replicate 4294967296 0)]) = Inl SSTableTooBig"
proof -
  have s: "encoded_size (entries_of (iter_of [KV (replicate 8 1) (replicate 4294967296 0)])) > 4294967295"
    by (simp add: encoded_size_def)
  from capacity_overflow [OF s, of 7 0 0 1234] s show ?thesis by simp
qed


text \<open>
  Claim C2 (round trip). For a table \<open>t\<close> that \<open>BuildSSTable\<close> returned, \<open>Deserialize\<close>
  at offset 0 of \<open>Serialize t\<close> yields \<open>t\<close> itself, whatever the receiver held before:
  the same \<open>numEntries\<close>, \<open>numDeletes\<close>, \<open>maxKeyLength\<close>, \<open>indexOffset\<close> and
  \<open>creationTime\<close> (and \<open>format\<close>), and the same bytes in \<open>data\<close>.
\<close>

theorem round_trip:
  assumes "BuildSSTable fmt bse ee now it = Inr (t, sk, lk, mn, mx)"
  shows "\<exists>t' next. Deserialize enc s0 (Serialize t) 0 = Inr (t', next) \<and>
           numEntries t' = numEntries t \<and> numDeletes t' = numDeletes t \<and>
           maxKeyLength t' = maxKeyLength t \<and> indexOffset t' = indexOffset t \<and>
           creationTime t' = creationTime t \<and> data t' = data t \<and> t' = t"
  using BuildSSTable_table [OF assms] Deserialize_built [of "entries_of it" enc s0 fmt now]
  by simp

theorem round_trip_witness:
  "BuildSSTable 7 0 0 1234 (iter_of example_entries) =
     Inr (example_table, Some [97, 255, 255, 255, 255, 255, 255, 255, 250],
          Some [99, 100, 255, 255, 255, 255, 255, 255, 255, 246], 3, 9) \<and>
   (\<exists>next. Deserialize checked_encoding empty_table (Serialize example_table) 0 =
             Inr (example_table, next))"
  using round_trip [OF example_build, of checked_encoding empty_table] example_build by auto


text \<open>
  Claim C3 (fail-closed deserialization), as the code has it. \<open>Deserialize\<close> has no
  error result and validates nothing.
  \<^item> A buffer whose footer disagrees with its data region is accepted: for the data of
    a built table followed by any values of \<open>maxKeyLength\<close>, \<open>numEntries\<close>, \<open>numDeletes\<close>
    and \<open>indexOffset\<close>, the table with exactly these values is returned.
  \<^item> On the serialization of a built table with its last byte removed, \<open>format\<close>,
    \<open>maxKeyLength\<close>, \<open>numEntries\<close>, \<open>numDeletes\<close> and \<open>indexOffset\<close> are read and assigned;
    the eight bytes of \<open>creationTime\<close> are then asked of \<^verbatim>\<open>ReadUint64FromBufferLE\<close> at an
    offset where only seven remain. If that reader panics, so does \<open>Deserialize\<close>, and
    the receiver keeps the five fields assigned so far. If it returns a value,
    \<open>Deserialize\<close> returns a table with that value as \<open>creationTime\<close> and with the data
    region short of its last byte.
  In no case is a corrupt table reported.
\<close>

theorem deserialize_validates_nothing:
  assumes "BuildSSTable fmt bse ee now it = Inr (t, sk, lk, mn, mx)"
  shows "Deserialize enc s
           (Serialize (t\<lparr>maxKeyLength := a, numEntries := b, numDeletes := c,
                         indexOffset := e\<rparr>)) 0 =
           Inr (t\<lparr>maxKeyLength := a, numEntries := b, numDeletes := c, indexOffset := e\<rparr>,
                int (length (data t)) + 24) \<and>
         Deserialize enc s (butlast (Serialize t)) 0 =
           (case ReadUint64_beyond enc (butlast (Serialize t)) (int (length (data t)) + 16) of
              Inl p \<Rightarrow>
                Inl (p, s\<lparr>format := format t, maxKeyLength := maxKeyLength t,
                          numEntries := numEntries t, numDeletes := numDeletes t,
                          indexOffset := indexOffset t\<rparr>)
            | Inr (v, next) \<Rightarrow>
                Inr (t\<lparr>creationTime := v, data := butlast (data t)\<rparr>, next))"
proof -
  define es where "es = entries_of it"
  from BuildSSTable_table [OF assms]
  have t: "t = built_table fmt now es" and n: "encoded_size es \<le> 4294967295"
    by (simp_all add: es_def)
  have d: "data t = built_data fmt es" by (simp add: t built_table_fields)
  have ld: "length (data t) = encoded_size es" by (simp add: d length_built_data)
  have f: "format t = fmt" by (simp add: t built_table_fields)
  have "Serialize (t\<lparr>maxKeyLength := a, numEntries := b, numDeletes := c, indexOffset := e\<rparr>) =
      built_data fmt es @ le32 a @ le32 b @ le32 c @ le32 e @ le64 now"
    by (simp add: Serialize_eq d) (simp add: t built_table_fields)
  moreover have "t\<lparr>maxKeyLength := a, numEntries := b, numDeletes := c, indexOffset := e\<rparr> =
      \<lparr>format = fmt, maxKeyLength = a, numEntries = b, numDeletes = c,
       indexOffset = e, creationTime = now, data = built_data fmt es\<rparr>"
    by (simp add: t built_table_def)
  ultimately have footer: "Deserialize enc s
      (Serialize (t\<lparr>maxKeyLength := a, numEntries := b, numDeletes := c, indexOffset := e\<rparr>)) 0 =
      Inr (t\<lparr>maxKeyLength := a, numEntries := b, numDeletes := c, indexOffset := e\<rparr>,
           int (length (data t)) + 24)"
    by (simp only: Deserialize_footer [OF n] ld)
  have truncated: "Deserialize enc s (butlast (Serialize t)) 0 =
      (case ReadUint64_beyond enc (butlast (Serialize t)) (int (length (data t)) + 16) of
         Inl p \<Rightarrow>
           Inl (p, s\<lparr>format := format t, maxKeyLength := maxKeyLength t,
                     numEntries := numEntries t, numDeletes := numDeletes t,
                     indexOffset := indexOffset t\<rparr>)
       | Inr (v, next) \<Rightarrow>
           Inr (t\<lparr>creationTime := v, data := butlast (data t)\<rparr>, next))"
    unfolding ld unfolding d f unfolding t by (rule Deserialize_truncated [OF n])
  from footer truncated show ?thesis by (rule conjI)
qed

theorem deserialize_validates_nothing_witness:
  "BuildSSTable 7 0 0 1234 (iter_of example_entries) =
     Inr (example_table, Some [97, 255, 255, 255, 255, 255, 255, 255, 250],
          Some [99, 100, 255, 255, 255, 255, 255, 255, 255, 246], 3, 9) \<and>
   Deserialize checked_encoding empty_table
     (Serialize (example_table\<lparr>maxKeyLength := 10, numEntries := 4294967295, numDeletes := 1,
                               indexOffset := 4294967295\<rparr>)) 0 =
     Inr (example_table\<lparr>maxKeyLength := 10, numEntries := 4294967295, numDeletes := 1,
                        indexOffset := 4294967295\<rparr>, 127) \<and>
   Deserialize checked_encoding empty_table (butlast (Serialize example_table)) 0 =
     Inl (IndexOutOfRange,
          \<lparr>format = 7, maxKeyLength = 10, numEntries = 3, numDeletes = 1,
           indexOffset = 61, creationTime = 0, data = []\<rparr>) \<and>
   Deserialize unchecked_encoding empty_table (butlast (Serialize example_table)) 0 =
     Inr (example_table\<lparr>data := butlast (data example_table)\<rparr>, 127)"
proof -
  note v = deserialize_validates_nothing [OF example_build]
  from v [where enc = checked_encoding and s = empty_table and a = 10 and b = 4294967295
      and c = 1 and e = 4294967295]
  have a: "Deserialize checked_encoding empty_table
     (Serialize (example_table\<lparr>maxKeyLength := 10, numEntries := 4294967295, numDeletes := 1,
                               indexOffset := 4294967295\<rparr>)) 0 =
     Inr (example_table\<lparr>maxKeyLength := 10, numEntries := 4294967295, numDeletes := 1,
                        indexOffset := 4294967295\<rparr>, 127)"
    by (simp add: example_data_length)
  from v [where enc = checked_encoding and s = empty_table]
  have b: "Deserialize checked_encoding empty_table (butlast (Serialize example_table)) 0 =
     Inl (IndexOutOfRange,
          \<lparr>format = 7, maxKeyLength = 10, numEntries = 3, numDeletes = 1,
           indexOffset = 61, creationTime = 0, data = []\<rparr>)"
    by (simp add: checked_encoding_def example_table_fields empty_table_def)
  from v [where enc = unchecked_encoding and s = empty_table]
  have c: "Deserialize unchecked_encoding empty_table (butlast (Serialize example_table)) 0 =
     Inr (example_table\<lparr>data := butlast (data example_table)\<rparr>, 127)"
    by (simp add: example_data_length example_truncated_read example_creationTime)
  from example_build a b c show ?thesis by simp
qed

theorem inconsistent_footer_counterexample:
  "Deserialize checked_encoding empty_table
     (data example_table @
      [10, 0, 0, 0, 255, 255, 255, 255, 1, 0, 0, 0, 255, 255, 255, 255,
       210, 4, 0, 0, 0, 0, 0, 0]) 0 =
     Inr (\<lparr>format = 7, maxKeyLength = 10, numEntries = 4294967295, numDeletes = 1,
           indexOffset = 4294967295, creationTime = 1234, data = data example_table\<rparr>, 127) \<and>
   Deserialize unchecked_encoding empty_table
     (data example_table @
      [10, 0, 0, 0, 255, 255, 255, 255, 1, 0, 0, 0, 255, 255, 255, 255,
       210, 4, 0, 0, 0, 0, 0, 0]) 0 =
     Inr (\<lparr>format = 7, maxKeyLength = 10, numEntries = 4294967295, numDeletes = 1,
           indexOffset = 4294967295, creationTime = 1234, data = data example_table\<rparr>, 127) \<and>
   length (data example_table) = 103"
proof -
  have "Deserialize enc empty_table
      (built_data 7 example_entries @ le32 10 @ le32 4294967295 @ le32 1 @ le32 4294967295 @
       le64 1234) 0 =
      Inr (\<lparr>format = 7, maxKeyLength = 10, numEntries = 4294967295, numDeletes = 1,
            indexOffset = 4294967295, creationTime = 1234,
            data = built_data 7 example_entries\<rparr>, int (encoded_size example_entries) + 24)"
    for enc
    by (rule Deserialize_footer) (simp add: example_encoded_size)
  moreover have "le32 10 = [10, 0, 0, 0]" "le32 1 = [1, 0, 0, 0]"
    "le32 4294967295 = [255, 255, 255, 255]" "le64 1234 = [210, 4, 0, 0, 0, 0, 0, 0]"
    by (simp_all add: le32_def le64_def AppendUint32ToBufferLE_def AppendUint64ToBufferLE_def
        drop_bit_eq_div)
  ultimately show ?thesis
    by (simp add: example_data example_encoded_size length_built_data)
qed

text \<open>
  Claim C4 (the pointer in bytes 1 to 4), as the code has it. In the serialization of
  a built table the little-endian \<^verbatim>\<open>uint32\<close> at offset 1 is the length of the data
  buffer: the offset at which the index region ends and the footer begins. It is
  \<open>indexOffset\<close> only for a table without entries. The index region takes
  \<open>numEntries\<close> records of \<open>maxKeyLength + 4\<close> bytes from \<open>indexOffset\<close> on, and the 24
  bytes of the footer follow it and end the buffer.
\<close>

theorem serialized_layout:
  assumes "BuildSSTable fmt bse ee now it = Inr (t, sk, lk, mn, mx)"
  shows "ReadUint32FromBufferLE enc (Serialize t) 1 = Inr (of_nat (length (data t)), 5) \<and>
         length (data t) \<le> 4294967295 \<and>
         ((of_nat (length (data t)) :: uint32) = indexOffset t \<longleftrightarrow> entries_of it = []) \<and>
         length (data t) =
           unat (indexOffset t) + unat (numEntries t) * (unat (maxKeyLength t) + 4) \<and>
         Serialize t = data t @ AppendUint64ToBufferLE (AppendUint32ToBufferLE
           (AppendUint32ToBufferLE (AppendUint32ToBufferLE (AppendUint32ToBufferLE []
              (maxKeyLength t)) (numEntries t)) (numDeletes t)) (indexOffset t)) (creationTime t) \<and>
         length (Serialize t) = length (data t) + 24"
proof -
  define es where "es = entries_of it"
  from BuildSSTable_table [OF assms]
  have t: "t = built_table fmt now es" and n: "encoded_size es \<le> 4294967295"
    by (simp_all add: es_def)
  have ld: "length (data t) = encoded_size es"
    by (simp add: t built_table_fields length_built_data)
  have "ReadUint32FromBufferLE enc ([] @ built_data fmt es @ (le32 (maxKeyLength t) @
      le32 (numEntries t) @ le32 (numDeletes t) @ le32 (indexOffset t) @ le64 (creationTime t)))
      (int (length ([] :: bytes)) + 1) =
      Inr (of_nat (encoded_size es), int (length ([] :: bytes)) + 1 + 4)"
    by (rule built_pointer)
  then have a1: "ReadUint32FromBufferLE enc (Serialize t) 1 = Inr (of_nat (length (data t)), 5)"
    by (simp add: Serialize_eq ld) (simp add: t built_table_fields)
  have a2: "length (data t) \<le> 4294967295" using n by (simp add: ld)
  have a3: "(of_nat (length (data t)) :: uint32) = indexOffset t \<longleftrightarrow> entries_of it = []"
    unfolding ld unfolding t es_def [symmetric] by (rule pointer_eq_indexOffset [OF n])
  have a4: "length (data t) =
      unat (indexOffset t) + unat (numEntries t) * (unat (maxKeyLength t) + 4)"
    unfolding ld unfolding t by (rule index_region_size [OF n])
  have a5: "Serialize t = data t @ AppendUint64ToBufferLE (AppendUint32ToBufferLE
           (AppendUint32ToBufferLE (AppendUint32ToBufferLE (AppendUint32ToBufferLE []
              (maxKeyLength t)) (numEntries t)) (numDeletes t)) (indexOffset t)) (creationTime t)"
    by (simp add: Serialize_eq Append32_le32 Append64_le64)
  have a6: "length (Serialize t) = length (data t) + 24" by (rule length_Serialize)
  from a1 a2 a3 a4 a5 a6 show ?thesis by blast
qed

theorem serialized_layout_witness:
  "BuildSSTable 7 0 0 1234 (iter_of example_entries) =
     Inr (example_table, Some [97, 255, 255, 255, 255, 255, 255, 255, 250],
          Some [99, 100, 255, 255, 255, 255, 255, 255, 255, 246], 3, 9) \<and>
   ReadUint32FromBufferLE checked_encoding (Serialize example_table) 1 = Inr (103, 5) \<and>
   length (Serialize example_table) = 127"
proof -
  from serialized_layout [OF example_build, of checked_encoding]
  have "ReadUint32FromBufferLE checked_encoding (Serialize example_table) 1 =
      Inr (of_nat (length (data example_table)), 5)"
    and "length (Serialize example_table) = length (data example_table) + 24"
    by blast+
  with example_build show ?thesis by (simp add: example_data_length)
qed

theorem pointer_is_not_indexOffset_counterexample:
  "BuildSSTable 7 0 0 1234 (iter_of example_entries) =
     Inr (example_table, Some [97, 255, 255, 255, 255, 255, 255, 255, 250],
          Some [99, 100, 255, 255, 255, 255, 255, 255, 255, 246], 3, 9) \<and>
   ReadUint32FromBufferLE checked_encoding (Serialize example_table) 1 = Inr (103, 5) \<and>
   indexOffset example_table = 61 \<and> (103 :: uint32) \<noteq> 61"
  using example_build example_pointer by (simp add: example_table_fields)

text \<open>
  Claim C5 (view and next offset), at an input where the code leaves it. The buffer
  holds the serialization of the example table twice; the second copy begins at
  offset 127. \<open>Deserialize\<close> at 127 reads the tag and the pointer of the second copy,
  takes the pointer for an offset from the start of the buffer and so reads the
  footer of the first copy, sets \<open>data\<close> to the buffer without its last 24 bytes, from
  offset 0 on, and returns 127: the offset it was given, not the end of the buffer.
\<close>

theorem deserialize_second_table:
  "BuildSSTable 7 0 0 1234 (iter_of example_entries) =
     Inr (example_table, Some [97, 255, 255, 255, 255, 255, 255, 255, 250],
          Some [99, 100, 255, 255, 255, 255, 255, 255, 255, 246], 3, 9) \<and>
   length (Serialize example_table) = 127 \<and>
   Deserialize enc empty_table (Serialize example_table @ Serialize example_table) 127 =
     Inr (example_table\<lparr>data := Serialize example_table @ data example_table\<rparr>, 127)"
proof -
  have "Deserialize enc empty_table
      (Serialize (built_table 7 1234 example_entries) @
       Serialize (built_table 7 1234 example_entries))
      (int (length (Serialize (built_table 7 1234 example_entries)))) =
    Inr ((built_table 7 1234 example_entries)
           \<lparr>data := Serialize (built_table 7 1234 example_entries) @
                    data (built_table 7 1234 example_entries)\<rparr>,
         int (length (Serialize (built_table 7 1234 example_entries))))"
    by (rule Deserialize_second_copy) (simp add: example_encoded_size)
  then show ?thesis
    unfolding example_built_table using example_build
    by (simp add: example_Serialize_length)
qed


text \<open>
  Claim C1 (lower-bound lookup), as the code has it. \<open>findOffset\<close> compares the looked-up
  key with the keys of the index records, which are padded with zero bytes to
  \<open>maxKeyLength\<close>. For a table that \<open>BuildSSTable\<close> returned:
  \<^item> for a stored key \<open>k\<close>, if every smaller stored key is still less than \<open>k\<close> once it is
    padded (so always when all keys have one length), the result is an offset at which
    the length-prefixed key \<open>k\<close> stands in the data buffer;
  \<^item> for a key greater than every padded stored key the result is \<open>-1\<close> (on a table
    without entries: for every key that is not empty);
  \<^item> for a key less than the smallest stored key of a table with entries, the result is
    an offset at which the smallest stored key stands.
\<close>

theorem lower_bound_lookup:
  assumes "BuildSSTable fmt bse ee now it = Inr (t, sk, lk, mn, mx)"
  shows "(\<forall>j. j < length (entries_of it) \<and>
              (\<forall>i. i < j \<longrightarrow> bytes_Compare (padded (unat (maxKeyLength t)) (Key (entries_of it ! i)))
                                (Key (entries_of it ! j)) < 0) \<longrightarrow>
              (\<exists>off. findOffset enc t (Key (entries_of it ! j)) = Inr off \<and>
                     stored_key_at enc (data t) off (Key (entries_of it ! j)))) \<and>
         (\<forall>k. (entries_of it \<noteq> [] \<or> k \<noteq> []) \<and>
              (\<forall>i. i < length (entries_of it) \<longrightarrow>
                   bytes_Compare (padded (unat (maxKeyLength t)) (Key (entries_of it ! i))) k < 0) \<longrightarrow>
              findOffset enc t k = Inr (- 1)) \<and>
         (\<forall>k. entries_of it \<noteq> [] \<and> bytes_Compare k (Key (entries_of it ! 0)) < 0 \<longrightarrow>
              (\<exists>off. findOffset enc t k = Inr off \<and>
                     stored_key_at enc (data t) off (Key (entries_of it ! 0))))"
proof -
  define es where "es = entries_of it"
  define M where "M = max_key_length 0 es"
  from BuildSSTable_Inr_built [OF assms]
  have t: "t = built_table fmt now es" and n: "encoded_size es \<le> 4294967295"
    and asc: "ascending_from None es"
    by (simp_all add: built_result_def es_def)
  from asc have s: "sorted_wrt (<) (map Key es)" by (simp add: ascending_from_sorted)
  have m: "unat (maxKeyLength t) = M" unfolding t M_def by (rule built_table_unat [OF n])
  have d: "data t = built_data fmt es" by (simp add: t built_table_fields)
  have a: "\<exists>off. findOffset enc t (Key (es ! j)) = Inr off \<and> stored_key_at enc (data t) off (Key (es ! j))"
    if "j < length es" "\<forall>i. i < j \<longrightarrow> bytes_Compare (padded M (Key (es ! i))) (Key (es ! j)) < 0"
    for j
  proof -
    from that(2) have "\<forall>i. i < j \<longrightarrow> padded M (Key (es ! i)) < Key (es ! j)"
      by (simp add: bytes_Compare_less)
    from findOffset_built(1) [OF n s that(1) le_padded this [unfolded M_def], of enc fmt now]
    have "findOffset enc t (Key (es ! j)) = Inr (int (entry_offset es j))" by (simp add: t)
    with stored_key_at_built [OF that(1), of enc fmt] show ?thesis by (simp add: d)
  qed
  have b: "findOffset enc t k = Inr (- 1)"
    if "es \<noteq> [] \<or> k \<noteq> []"
      "\<forall>i. i < length es \<longrightarrow> bytes_Compare (padded M (Key (es ! i))) k < 0" for k
  proof (cases "es = []")
    case True
    with that(1) show ?thesis by (simp add: t findOffset_empty_table)
  next
    case False
    from that(2) have "\<forall>i. i < length es \<longrightarrow> padded M (Key (es ! i)) < k"
      by (simp add: bytes_Compare_less)
    from findOffset_built(2) [OF n s False this [unfolded M_def], of enc fmt now]
    show ?thesis by (simp add: t)
  qed
  have c: "\<exists>off. findOffset enc t k = Inr off \<and> stored_key_at enc (data t) off (Key (es ! 0))"
    if "es \<noteq> []" "bytes_Compare k (Key (es ! 0)) < 0" for k
  proof -
    from that(1) have pos: "0 < length es" by simp
    from that(2) have "k < Key (es ! 0)" by (simp add: bytes_Compare_less)
    also have "Key (es ! 0) \<le> padded M (Key (es ! 0))" by (rule le_padded)
    finally have "k \<le> padded (max_key_length 0 es) (Key (es ! 0))" by (simp add: M_def)
    from findOffset_built(1) [OF n s pos this, of enc fmt now]
    have "findOffset enc t k = Inr (int (entry_offset es 0))" by (simp add: t)
    with stored_key_at_built [OF pos, of enc fmt] show ?thesis by (simp add: d)
  qed
  from a b c show ?thesis unfolding es_def [symmetric] m by blast
qed

theorem lower_bound_lookup_witness:
  "BuildSSTable 7 0 0 1234 (iter_of example_entries) =
     Inr (example_table, Some [97, 255, 255, 255, 255, 255, 255, 255, 250],
          Some [99, 100, 255, 255, 255, 255, 255, 255, 255, 246], 3, 9) \<and>
   findOffset checked_encoding example_table [98, 255, 255, 255, 255, 255, 255, 255, 252] = Inr 24 \<and>
   stored_key_at checked_encoding (data example_table) 24 [98, 255, 255, 255, 255, 255, 255, 255, 252] \<and>
   findOffset checked_encoding example_table [100] = Inr (- 1) \<and>
   findOffset checked_encoding example_table [0] = Inr 5 \<and>
   stored_key_at checked_encoding (data example_table) 5 [97, 255, 255, 255, 255, 255, 255, 255, 250]"
proof -
  note l = lower_bound_lookup [OF example_build, of checked_encoding]
  have k: "Key (example_entries ! Suc 0) = [98, 255, 255, 255, 255, 255, 255, 255, 252]"
    "Key (example_entries ! 0) = [97, 255, 255, 255, 255, 255, 255, 255, 250]"
    by (simp_all add: example_entries_def)
  have "\<forall>i. i < 1 \<longrightarrow> bytes_Compare (padded (unat (maxKeyLength example_table))
      (Key (entries_of (iter_of example_entries) ! i)))
      (Key (entries_of (iter_of example_entries) ! 1)) < 0"
    by (simp add: example_table_fields example_entries_def padded_def)
  moreover have "1 < length (entries_of (iter_of example_entries))"
    by (simp add: example_entries_def)
  ultimately have "\<exists>off. findOffset checked_encoding example_table (Key (entries_of (iter_of example_entries) ! 1)) =
      Inr off \<and> stored_key_at checked_encoding (data example_table) off
        (Key (entries_of (iter_of example_entries) ! 1))"
    using l [THEN conjunct1, rule_format, of 1] by blast
  then have a: "stored_key_at checked_encoding (data example_table) 24
      [98, 255, 255, 255, 255, 255, 255, 255, 252]"
    by (auto simp: k example_findOffset)
  have "entries_of (iter_of example_entries) \<noteq> [] \<and>
      bytes_Compare [0] (Key (entries_of (iter_of example_entries) ! 0)) < 0"
    by (simp add: example_entries_def)
  then have "\<exists>off. findOffset checked_encoding example_table [0] = Inr off \<and>
      stored_key_at checked_encoding (data example_table) off (Key (entries_of (iter_of example_entries) ! 0))"
    using l [THEN conjunct2, THEN conjunct2, rule_format, of "[0]"] by blast
  then have c: "stored_key_at checked_encoding (data example_table) 5
      [97, 255, 255, 255, 255, 255, 255, 255, 250]"
    by (auto simp: k example_findOffset)
  from a c example_build example_findOffset show ?thesis by simp
qed

theorem lower_bound_lookup_counterexample:
  "BuildSSTable 7 0 0 1234 (iter_of prefix_entries) =
     Inr (prefix_table, Some [1, 1, 1, 1, 1, 1, 1, 1], Some [1, 1, 1, 1, 1, 1, 1, 1, 0],
          18374403900871474942, 18374403900871474943) \<and>
   Key (prefix_entries ! 1) = [1, 1, 1, 1, 1, 1, 1, 1, 0] \<and>
   findOffset checked_encoding prefix_table [1, 1, 1, 1, 1, 1, 1, 1, 0] = Inr 5 \<and>
   stored_key_at checked_encoding (data prefix_table) 5 [1, 1, 1, 1, 1, 1, 1, 1] \<and>
   \<not> stored_key_at checked_encoding (data prefix_table) 5 [1, 1, 1, 1, 1, 1, 1, 1, 0]"
proof -
  have "\<not> stored_key_at checked_encoding (data prefix_table) 5 [1, 1, 1, 1, 1, 1, 1, 1, 0]"
    using prefix_stored_key by (simp add: stored_key_at_def)
  with prefix_build prefix_findOffset prefix_stored_key show ?thesis
    by (simp add: prefix_entries_def)
qed


end
